theory Spec2Isabelle
  imports Main "HOL-Library.Sublist"
begin

section \<open>Values and option objects\<close>

text \<open>
  JavaScript values as far as \<^verbatim>\<open>src/Alioss.js\<close> inspects them: the per-call
  \<^verbatim>\<open>config\<close> is an object whose keys \<^verbatim>\<open>rename\<close>, \<^verbatim>\<open>checkpoint\<close> and
  \<^verbatim>\<open>__isRetry\<close> are read by truthiness. An object is an association list in
  insertion order.
\<close>

datatype jv = JUndefined | JNull | JBool bool | JNum int | JStr string
  | JObj "(string \<times> jv) list"

type_synonym obj = "(string \<times> jv) list"

fun truthy :: "jv \<Rightarrow> bool" where
  "truthy JUndefined = False"
| "truthy JNull = False"
| "truthy (JBool b) = b"
| "truthy (JNum n) = (n \<noteq> 0)"
| "truthy (JStr s) = (s \<noteq> [])"
| "truthy (JObj kvs) = True"

text \<open>\<^verbatim>\<open>o.k\<close>: the value stored under the key, \<^verbatim>\<open>undefined\<close> when the key is absent.\<close>

definition getprop :: "obj \<Rightarrow> string \<Rightarrow> jv" where
  "getprop ob k = (case map_of ob k of None \<Rightarrow> JUndefined | Some v \<Rightarrow> v)"

text \<open>
  What a \<^verbatim>\<open>try\<close> block catches: the \<^verbatim>\<open>TypeError\<close> of the language (calling what is
  not a function, reading a member of \<^verbatim>\<open>null\<close>) or a value thrown by a collaborator.
\<close>

datatype error = TypeError | Thrown string

text \<open>
  The method call \<^verbatim>\<open>o.hasOwnProperty(k)\<close>. The method is looked up on the object
  itself first: when the object has an own key \<^verbatim>\<open>hasOwnProperty\<close>, its value (none
  of the values is a function) is what gets called, and the call throws a
  \<^verbatim>\<open>TypeError\<close>. Otherwise the lookup reaches \<^verbatim>\<open>Object.prototype.hasOwnProperty\<close>.
\<close>

definition hasOwnProperty :: "obj \<Rightarrow> string \<Rightarrow> error + bool" where
  "hasOwnProperty ob k =
     (if map_of ob ''hasOwnProperty'' \<noteq> None then Inl TypeError
      else Inr (map_of ob k \<noteq> None))"

text \<open>
  \<^verbatim>\<open>o[k] = v\<close> on an object: an existing key keeps its place, a new key goes last.
\<close>

fun assign :: "string \<Rightarrow> jv \<Rightarrow> obj \<Rightarrow> obj" where
  "assign k v [] = [(k, v)]"
| "assign k v ((k', v') # rest) =
     (if k = k' then (k, v) # rest else (k', v') # assign k v rest)"

text \<open>
  The object spread \<^verbatim>\<open>{...a, ...b}\<close>: the keys of \<^verbatim>\<open>b\<close> are assigned over a copy of
  \<^verbatim>\<open>a\<close>. An association list stands for the object that maps a key to its first
  binding, so the later bindings of a key already assigned are skipped.
\<close>

fun spread :: "obj \<Rightarrow> obj \<Rightarrow> obj" where
  "spread a [] = a"
| "spread a ((k, v) # rest) = spread (assign k v a) (filter (\<lambda>kv. fst kv \<noteq> k) rest)"

text \<open>
  Modelled from the spec: \<^verbatim>\<open>deepMerge\<close> of \<^verbatim>\<open>./utils\<close> is not among the sources. The
  spec describes it as \<^verbatim>\<open>merge(base, override) -> merged\<close>, right-biased and recursive
  for nested mapping values: every key of the override is written over the base, and
  where both sides hold an object under the key the two objects are merged in turn.
  As in \<open>spread\<close>, the later bindings of a key already merged are skipped.
\<close>

function deepMerge :: "obj \<Rightarrow> obj \<Rightarrow> obj" where
  "deepMerge base [] = base"
| "deepMerge base ((k, v) # rest) =
     deepMerge
       (assign k
          (case v of
             JObj ov \<Rightarrow>
               (case map_of base k of
                  Some (JObj bv) \<Rightarrow> JObj (deepMerge bv ov)
                | _ \<Rightarrow> v)
           | _ \<Rightarrow> v)
          base)
       (filter (\<lambda>kv. fst kv \<noteq> k) rest)"
  by pat_completeness auto
termination
proof (relation "measure (\<lambda>(b, ov). size (JObj ov))")
  have shrink: "size_list f (filter P xs) \<le> size_list f xs"
    for f :: "string \<times> jv \<Rightarrow> nat" and P xs
    by (induction xs) auto
  show "wf (measure (\<lambda>(b, ov). size (JObj ov)))" by simp
  show "((bv, ov), base, (k, v) # rest) \<in> measure (\<lambda>(b, ov). size (JObj ov))"
    if "v = JObj ov" for base k v rest ov bv
    using that by simp
  show "((assign k v' base, filter (\<lambda>kv. fst kv \<noteq> k) rest), base, (k, v) # rest)
          \<in> measure (\<lambda>(b, ov). size (JObj ov))"
    for base k v rest v'
    using shrink [of "size_prod (\<lambda>_. 0) size" "\<lambda>kv. fst kv \<noteq> k" rest]
    by simp
qed

section \<open>The coordinator's state\<close>

text \<open>
  The options of \<^verbatim>\<open>AliOSS\<close> after the constructor's merge with its defaults, typed as
  the defaults are. \<^verbatim>\<open>oss_options\<close> holds what \<^verbatim>\<open>new OSS({...options})\<close> receives:
  every field but \<^verbatim>\<open>async\<close> and \<^verbatim>\<open>getOptions\<close>, which \<^verbatim>\<open>getStore\<close> strips.
  \<^verbatim>\<open>other\<close> carries the fields the class never reads (credentials, region, ...).
\<close>

record oss_options =
  rootPath :: string
  rename :: bool
  enableCdn :: bool
  cdnUrl :: string
  retryCount :: int
  config :: "obj option"
  other :: obj

record options = oss_options +
  async :: bool

text \<open>
  What the promise of \<^verbatim>\<open>getOptions()\<close> fulfils with: an object holding some of the
  option keys. A field that is \<open>None\<close> is a key the object does not have.
\<close>

record options_patch =
  p_rootPath :: "string option"
  p_rename :: "bool option"
  p_enableCdn :: "bool option"
  p_cdnUrl :: "string option"
  p_retryCount :: "int option"
  p_config :: "obj option"
  p_other :: obj
  p_async :: "bool option"

text \<open>\<^verbatim>\<open>{...this.#opts, ...(options || {})}\<close>: a shallow merge, key by key.\<close>

definition override :: "'a \<Rightarrow> 'a option \<Rightarrow> 'a" where
  "override old new = (case new of None \<Rightarrow> old | Some v \<Rightarrow> v)"

definition merge_options :: "options \<Rightarrow> options_patch \<Rightarrow> options" where
  "merge_options ops p =
     \<lparr> rootPath = override (rootPath ops) (p_rootPath p),
       rename = override (rename ops) (p_rename p),
       enableCdn = override (enableCdn ops) (p_enableCdn p),
       cdnUrl = override (cdnUrl ops) (p_cdnUrl p),
       retryCount = override (retryCount ops) (p_retryCount p),
       config = (case p_config p of None \<Rightarrow> config ops | Some c \<Rightarrow> Some c),
       other = spread (other ops) (p_other p),
       async = override (async ops) (p_async p) \<rparr>"

type_synonym pid = nat
type_synonym client = nat

datatype kind = PutOp | MultipartOp

text \<open>
  A listener registered on \<^verbatim>\<open>this.#event\<close>: the closure of \<^verbatim>\<open>put\<close> or of
  \<^verbatim>\<open>multipartUpload\<close> over its arguments and over the \<^verbatim>\<open>resolve\<close>/\<^verbatim>\<open>reject\<close> pair of
  the promise the call returned (\<open>t_owner\<close> names that promise).
\<close>

record task =
  t_key :: nat
  t_kind :: kind
  t_owner :: pid
  t_filename :: string
  t_data :: string
  t_config :: obj

datatype outcome = Resolved jv | Rejected error

text \<open>
  How the backend promise of a task settles. \<open>Failure err c\<close> carries what
  \<^verbatim>\<open>this.#client.isCancel()\<close> answers when the \<^verbatim>\<open>.catch\<close> handler runs.
\<close>

datatype backend_result = Success jv | Failure error bool

text \<open>
  The collaborators the class is given. \<^verbatim>\<open>new OSS\<close> belongs to the library
  \<^verbatim>\<open>ali-oss\<close> and may throw; \<^verbatim>\<open>getOptions\<close> is the caller's function and either
  returns a promise or does not (the default \<^verbatim>\<open>() => {}\<close> returns \<^verbatim>\<open>undefined\<close>, on
  which \<^verbatim>\<open>.catch\<close> throws); \<^verbatim>\<open>generateFilename\<close> and \<^verbatim>\<open>formatResponse\<close> are
  helpers of \<^verbatim>\<open>./utils\<close> that are not among the sources and are taken as parameters,
  the first with the unique-id source it draws from.
\<close>

record env =
  construct :: "oss_options \<Rightarrow> error + client"
  getOptions_thenable :: bool
  generateFilename :: "string \<Rightarrow> jv \<Rightarrow> string \<Rightarrow> nat \<Rightarrow> string"
  formatResponse :: "jv \<Rightarrow> bool \<Rightarrow> string \<Rightarrow> error + jv"

text \<open>
  The private fields of an \<^verbatim>\<open>AliOSS\<close> instance, the continuations suspended at an
  \<^verbatim>\<open>await\<close>, the promises handed to callers, and a trace of what was done:
  \<^item> \<open>event\<close>: the listeners of \<^verbatim>\<open>this.#event\<close>, in registration order;
  \<^item> \<open>waiting_options\<close>: calls suspended in \<^verbatim>\<open>getStore\<close> at \<^verbatim>\<open>await getOptions()\<close>;
  \<^item> \<open>init_resume\<close>: calls whose \<^verbatim>\<open>getStore\<close> promise resolved and whose \<^verbatim>\<open>#init\<close>
    waits for its turn to continue after \<^verbatim>\<open>await this.getStore()\<close>;
  \<^item> \<open>inflight\<close>: tasks suspended at \<^verbatim>\<open>await this.#client.put/multipartUpload\<close>, with
    the path and the merged config they passed;
  \<^item> \<open>promises\<close>: the settled promises returned by \<^verbatim>\<open>put\<close>/\<^verbatim>\<open>multipartUpload\<close>;
  \<^item> \<open>constructed\<close>: the argument of every \<^verbatim>\<open>new OSS(...)\<close>, whether it threw or not;
  \<^item> \<open>options_calls\<close>: how often \<^verbatim>\<open>getOptions\<close> was invoked;
  \<^item> \<open>store_resolved\<close>: the calls whose \<^verbatim>\<open>getStore\<close> promise resolved;
  \<^item> \<open>drains\<close>: every \<^verbatim>\<open>this.#event.emit()\<close>: the call whose \<^verbatim>\<open>#init\<close> ran it and the
    owners of the tasks it executed, in execution order;
  \<^item> \<open>executed\<close>: the owner of every listener that was entered, in the order entered;
  \<^item> \<open>backend_calls\<close>: every \<^verbatim>\<open>client.put\<close>/\<^verbatim>\<open>client.multipartUpload\<close> invocation;
  \<^item> \<open>settled\<close>: every backend promise that settled, with the task that awaited it;
  \<^item> \<open>resubmits\<close>: every retry resubmission: its key and the call it created.
\<close>

record state =
  opts :: options
  client :: "client option"
  event :: "task list"
  retryQueue :: "string \<Rightarrow> int option"
  uid :: nat
  next_pid :: pid
  waiting_options :: "pid list"
  init_resume :: "pid list"
  inflight :: "task list"
  promises :: "pid \<Rightarrow> outcome option"
  constructed :: "oss_options list"
  options_calls :: nat
  store_resolved :: "pid list"
  drains :: "(pid \<times> pid list) list"
  executed :: "pid list"
  backend_calls :: "(pid \<times> kind \<times> string \<times> string \<times> obj) list"
  settled :: "(task \<times> backend_result) list"
  resubmits :: "(string \<times> pid) list"

definition initial :: "options \<Rightarrow> state" where
  "initial ops =
     \<lparr> opts = ops, client = None, event = [], retryQueue = (\<lambda>k. None), uid = 0,
       next_pid = 0, waiting_options = [], init_resume = [], inflight = [],
       promises = (\<lambda>p. None), constructed = [], options_calls = 0,
       store_resolved = [], drains = [], executed = [], backend_calls = [],
       settled = [], resubmits = [] \<rparr>"

text \<open>\<^verbatim>\<open>resolve(v)\<close> / \<^verbatim>\<open>reject(e)\<close>: a promise keeps its first settlement.\<close>

definition settle :: "pid \<Rightarrow> outcome \<Rightarrow> state \<Rightarrow> state" where
  "settle p out s =
     (case promises s p of
        None \<Rightarrow> s\<lparr>promises := (promises s)(p \<mapsto> out)\<rparr>
      | Some _ \<Rightarrow> s)"

section \<open>The listeners\<close>

text \<open>
  The synchronous part of a listener, up to its \<^verbatim>\<open>await\<close> (lines 300 to 312 of
  \<^verbatim>\<open>put\<close>, lines 341 to 358 of \<^verbatim>\<open>multipartUpload\<close>). Both merge the per-call
  config over \<^verbatim>\<open>this.#opts?.config || {}\<close> and pick \<^verbatim>\<open>rename\<close> from the merged config
  when \<^verbatim>\<open>config.hasOwnProperty('rename')\<close> says it has the key; that method call
  throws when the merged config has an own key \<^verbatim>\<open>hasOwnProperty\<close>. Reading
  \<^verbatim>\<open>this.#client.put\<close> on a null client throws a \<^verbatim>\<open>TypeError\<close> before the arguments
  are evaluated. The \<^verbatim>\<open>try\<close>/\<^verbatim>\<open>catch\<close> turns either into \<^verbatim>\<open>reject(error)\<close>: the
  statements after the throw are not executed.
\<close>

definition merged_config :: "state \<Rightarrow> obj \<Rightarrow> obj" where
  "merged_config s cfg =
     deepMerge (case config (opts s) of None \<Rightarrow> [] | Some c \<Rightarrow> c) cfg"

definition rename_of :: "state \<Rightarrow> obj \<Rightarrow> error + jv" where
  "rename_of s cfg =
     (case hasOwnProperty cfg ''rename'' of
        Inl err \<Rightarrow> Inl err
      | Inr has \<Rightarrow> Inr (if has then getprop cfg ''rename'' else JBool (rename (opts s))))"

definition put_task :: "env \<Rightarrow> task \<Rightarrow> state \<Rightarrow> state" where
  "put_task e t s =
     (let s0 = s\<lparr>executed := executed s @ [t_owner t]\<rparr>;
          cfg = merged_config s (t_config t)
      in case rename_of s cfg of
           Inl err \<Rightarrow> settle (t_owner t) (Rejected err) s0
         | Inr rn \<Rightarrow>
             (case client s of
                None \<Rightarrow> settle (t_owner t) (Rejected TypeError) s0
              | Some c \<Rightarrow>
                  (let path = generateFilename e (t_filename t) rn (rootPath (opts s)) (uid s)
                   in s0\<lparr> uid := Suc (uid s),
                          backend_calls :=
                            backend_calls s @ [(t_owner t, PutOp, path, t_data t, cfg)],
                          inflight :=
                            inflight s @ [t\<lparr>t_filename := path, t_config := cfg\<rparr>] \<rparr>)))"

definition multipart_task :: "env \<Rightarrow> task \<Rightarrow> state \<Rightarrow> state" where
  "multipart_task e t s =
     (let s0 = s\<lparr>executed := executed s @ [t_owner t]\<rparr>;
          cfg = merged_config s (t_config t);
          isRetry = truthy (getprop cfg ''__isRetry'')
      in case rename_of s cfg of
           Inl err \<Rightarrow> settle (t_owner t) (Rejected err) s0
         | Inr rn \<Rightarrow>
             (let fresh_name = \<not> (truthy (getprop cfg ''checkpoint'') \<or> isRetry);
                  path = (if fresh_name
                          then generateFilename e (t_filename t) rn (rootPath (opts s)) (uid s)
                          else t_filename t);
                  s1 = (if fresh_name then s0\<lparr>uid := Suc (uid s)\<rparr> else s0);
                  s2 = (if \<not> isRetry
                        then s1\<lparr>retryQueue := (retryQueue s1)(path := None)\<rparr>
                        else s1)
              in case client s2 of
                   None \<Rightarrow> settle (t_owner t) (Rejected TypeError) s2
                 | Some c \<Rightarrow>
                     s2\<lparr> backend_calls :=
                            backend_calls s2 @ [(t_owner t, MultipartOp, path, t_data t, cfg)],
                          inflight :=
                            inflight s2 @ [t\<lparr>t_filename := path, t_config := cfg\<rparr>] \<rparr>))"

definition run_task :: "env \<Rightarrow> state \<Rightarrow> task \<Rightarrow> state" where
  "run_task e s t =
     (case t_kind t of PutOp \<Rightarrow> put_task e t s | MultipartOp \<Rightarrow> multipart_task e t s)"

section \<open>The event queue, \<^verbatim>\<open>getStore\<close> and \<^verbatim>\<open>#init\<close>\<close>

text \<open>
  Modelled from the spec: the class \<^verbatim>\<open>Event\<close> of \<^verbatim>\<open>./utils/event\<close> is not among the
  sources. The spec describes it as a FIFO task queue: \<^verbatim>\<open>on\<close> registers a task
  without executing it, \<^verbatim>\<open>length\<close> is the number of registered tasks, and \<^verbatim>\<open>emit\<close>
  drains: it executes every currently queued task in the order registered, then
  empties the queue. The first argument of \<open>emit\<close> names the call whose \<^verbatim>\<open>#init\<close>
  runs it, for the trace only.
\<close>

definition on :: "task \<Rightarrow> state \<Rightarrow> state" where
  "on t s = s\<lparr>event := event s @ [t]\<rparr>"

definition emit :: "env \<Rightarrow> pid \<Rightarrow> state \<Rightarrow> state" where
  "emit e who s =
     (let s' = foldl (run_task e) s (event s)
      in s'\<lparr> event := [],
             drains := drains s' @ [(who, map t_owner (event s))] \<rparr>)"

text \<open>
  \<^verbatim>\<open>this.#client = new OSS({...options}); resolve(this.#client)\<close>. When the
  constructor throws, the async function inside \<^verbatim>\<open>getStore\<close> rejects and nothing
  resolves the promise \<^verbatim>\<open>getStore\<close> returned.
\<close>

definition construct_client :: "env \<Rightarrow> pid \<Rightarrow> state \<Rightarrow> state" where
  "construct_client e who s =
     (let arg = oss_options.truncate (opts s);
          s1 = s\<lparr>constructed := constructed s @ [arg]\<rparr>
      in case construct e arg of
           Inl err \<Rightarrow> s1
         | Inr c \<Rightarrow>
             s1\<lparr> client := Some c,
                  store_resolved := store_resolved s1 @ [who],
                  init_resume := init_resume s1 @ [who] \<rparr>)"

text \<open>
  \<^verbatim>\<open>getStore\<close> (lines 261 to 288), called from \<^verbatim>\<open>#init\<close> of the call \<open>who\<close>. With a
  client it resolves at once; with \<^verbatim>\<open>this.#event.length - 1\<close> truthy it returns and
  leaves its promise pending; otherwise it resolves the options (suspending at
  \<^verbatim>\<open>await\<close> when \<^verbatim>\<open>async\<close> is set) and constructs the client.
\<close>

definition getStore :: "env \<Rightarrow> pid \<Rightarrow> state \<Rightarrow> state" where
  "getStore e who s =
     (case client s of
        Some c \<Rightarrow>
          s\<lparr> store_resolved := store_resolved s @ [who],
              init_resume := init_resume s @ [who] \<rparr>
      | None \<Rightarrow>
          if int (length (event s)) - 1 \<noteq> 0 then s
          else if async (opts s) then
            (let s1 = s\<lparr>options_calls := Suc (options_calls s)\<rparr>
             in if getOptions_thenable e
                then s1\<lparr>waiting_options := waiting_options s1 @ [who]\<rparr>
                else s1)
          else construct_client e who s)"

text \<open>
  \<^verbatim>\<open>#init\<close> (lines 393 to 408): with a client it drains at once, otherwise it awaits
  \<^verbatim>\<open>getStore\<close>.
\<close>

definition init :: "env \<Rightarrow> pid \<Rightarrow> state \<Rightarrow> state" where
  "init e who s =
     (case client s of
        Some c \<Rightarrow> emit e who s
      | None \<Rightarrow> getStore e who s)"

text \<open>
  \<^verbatim>\<open>put(filename, data, config)\<close> (lines 297 to 329) and
  \<^verbatim>\<open>multipartUpload(filename, data, config)\<close> (lines 338 to 388): a new promise, the
  listener registered under a fresh \<^verbatim>\<open>guid()\<close>, then \<^verbatim>\<open>#init\<close>.
\<close>

definition invoke :: "env \<Rightarrow> kind \<Rightarrow> string \<Rightarrow> string \<Rightarrow> obj \<Rightarrow> state \<Rightarrow> state" where
  "invoke e k filename dat cfg s =
     (let p = next_pid s;
          t = \<lparr> t_key = uid s, t_kind = k, t_owner = p, t_filename = filename,
                t_data = dat, t_config = cfg \<rparr>
      in init e p (on t (s\<lparr>next_pid := Suc p, uid := Suc (uid s)\<rparr>)))"

definition put :: "env \<Rightarrow> string \<Rightarrow> string \<Rightarrow> obj \<Rightarrow> state \<Rightarrow> state" where
  "put e = invoke e PutOp"

definition multipartUpload :: "env \<Rightarrow> string \<Rightarrow> string \<Rightarrow> obj \<Rightarrow> state \<Rightarrow> state" where
  "multipartUpload e = invoke e MultipartOp"

section \<open>Continuations\<close>

text \<open>
  The promise of \<^verbatim>\<open>getOptions()\<close> settles. \<^verbatim>\<open>.catch(() => {})\<close> turns a rejection into
  \<^verbatim>\<open>undefined\<close>, and \<^verbatim>\<open>options || {}\<close> turns that, like any falsy value, into the
  empty object.
\<close>

datatype options_result = Fulfilled "options_patch option" | Failed error

definition options_settled :: "env \<Rightarrow> options_result \<Rightarrow> state \<Rightarrow> state" where
  "options_settled e r s =
     (case waiting_options s of
        [] \<Rightarrow> s
      | who # rest \<Rightarrow>
          construct_client e who
            (s\<lparr> waiting_options := rest,
                opts := (case r of
                           Fulfilled (Some p) \<Rightarrow> merge_options (opts s) p
                         | _ \<Rightarrow> opts s) \<rparr>))"

text \<open>\<^verbatim>\<open>#init\<close> continues after \<^verbatim>\<open>await this.getStore()\<close>: it emits.\<close>

definition tick :: "env \<Rightarrow> state \<Rightarrow> state" where
  "tick e s =
     (case init_resume s of
        [] \<Rightarrow> s
      | who # rest \<Rightarrow> emit e who (s\<lparr>init_resume := rest\<rparr>))"

definition format_and_resolve :: "env \<Rightarrow> pid \<Rightarrow> jv \<Rightarrow> state \<Rightarrow> state" where
  "format_and_resolve e p raw s =
     (case formatResponse e raw (enableCdn (opts s)) (cdnUrl (opts s)) of
        Inl err \<Rightarrow> settle p (Rejected err) s
      | Inr v \<Rightarrow> settle p (Resolved v) s)"

text \<open>
  The \<^verbatim>\<open>.catch\<close> handler of \<^verbatim>\<open>multipartUpload\<close> (lines 358 to 374), followed by the
  \<^verbatim>\<open>reject(error)\<close> its \<^verbatim>\<open>throw err\<close> leads to.
\<close>

definition multipart_failed :: "env \<Rightarrow> task \<Rightarrow> error \<Rightarrow> bool \<Rightarrow> state \<Rightarrow> state" where
  "multipart_failed e t err cancelled s =
     (if client s \<noteq> None \<and> cancelled then settle (t_owner t) (Rejected err) s
      else
        (let name = t_filename t;
             s1 = (if retryQueue s name = None
                   then s\<lparr>retryQueue := (retryQueue s)(name \<mapsto> 0)\<rparr>
                   else s);
             count = (case retryQueue s1 name of None \<Rightarrow> 0 | Some n \<Rightarrow> n);
             s2 = (if count < retryCount (opts s1)
                   then multipartUpload e name (t_data t)
                          (assign ''__isRetry'' (JBool True) (t_config t))
                          (s1\<lparr> retryQueue := (retryQueue s1)(name \<mapsto> count + 1),
                               resubmits := resubmits s1 @ [(name, next_pid s1)] \<rparr>)
                   else s1)
         in settle (t_owner t) (Rejected err) s2))"

definition backend_settled :: "env \<Rightarrow> pid \<Rightarrow> backend_result \<Rightarrow> state \<Rightarrow> state" where
  "backend_settled e p r s =
     (case filter (\<lambda>t. t_owner t = p) (inflight s) of
        [] \<Rightarrow> s
      | t # _ \<Rightarrow>
          (let s1 = s\<lparr> inflight := filter (\<lambda>t. t_owner t \<noteq> p) (inflight s),
                       settled := settled s @ [(t, r)] \<rparr>
           in case r of
                Success raw \<Rightarrow> format_and_resolve e p raw s1
              | Failure err cancelled \<Rightarrow>
                  (case t_kind t of
                     PutOp \<Rightarrow> settle p (Rejected err) s1
                   | MultipartOp \<Rightarrow> multipart_failed e t err cancelled s1)))"

section \<open>Schedules\<close>

text \<open>
  What can happen to an instance, one step at a time: a caller invokes \<^verbatim>\<open>put\<close> or
  \<^verbatim>\<open>multipartUpload\<close>, the promise of \<^verbatim>\<open>getOptions\<close> settles, a suspended \<^verbatim>\<open>#init\<close>
  continues, or the backend promise of a task settles. A step for which nothing is
  suspended changes nothing. Every interleaving of these steps is a schedule; the
  cooperative scheduler of JavaScript produces some of them. \<^verbatim>\<open>getStore\<close> is only
  entered through \<^verbatim>\<open>#init\<close>: a caller invoking the public \<^verbatim>\<open>getStore\<close> directly is not
  a step of a schedule.
\<close>

datatype action =
    CallPut string string obj
  | CallMultipart string string obj
  | OptionsSettle options_result
  | Tick
  | BackendSettle pid backend_result

fun step :: "env \<Rightarrow> state \<Rightarrow> action \<Rightarrow> state" where
  "step e s (CallPut filename dat cfg) = put e filename dat cfg s"
| "step e s (CallMultipart filename dat cfg) = multipartUpload e filename dat cfg s"
| "step e s (OptionsSettle r) = options_settled e r s"
| "step e s Tick = tick e s"
| "step e s (BackendSettle p r) = backend_settled e p r s"

definition run :: "env \<Rightarrow> state \<Rightarrow> action list \<Rightarrow> state" where
  "run e s acts = foldl (step e) s acts"

text \<open>The owners of the tasks executed so far, in execution order.\<close>

definition started :: "state \<Rightarrow> pid list" where
  "started s = concat (map snd (drains s))"

section \<open>Invariants of the reachable states\<close>

text \<open>
  Single flight: at most one construction is attempted or about to be attempted, and
  while there is no client the queue is only empty before the first call.
\<close>

definition single_flight :: "state \<Rightarrow> bool" where
  "single_flight s \<longleftrightarrow>
     length (constructed s) + length (waiting_options s) \<le> 1
   \<and> options_calls s \<le> 1
   \<and> (client s = None \<longrightarrow> init_resume s = [])
   \<and> (client s \<noteq> None \<longrightarrow> constructed s \<noteq> [])
   \<and> (client s = None \<and> event s = [] \<longrightarrow>
        constructed s = [] \<and> waiting_options s = [] \<and> options_calls s = 0)"

text \<open>
  Bookkeeping of promises and tasks: the calls are numbered in the order they arrive;
  the tasks executed so far followed by the queued ones are all the calls, in order.
\<close>

definition bookkeeping :: "state \<Rightarrow> bool" where
  "bookkeeping s \<longleftrightarrow>
     started s @ map t_owner (event s) = [0..<next_pid s]
   \<and> distinct (map t_owner (inflight s))
   \<and> set (map t_owner (inflight s)) \<subseteq> set (started s)
   \<and> (\<forall>t\<in>set (inflight s). promises s (t_owner t) = None)
   \<and> (\<forall>p. promises s p \<noteq> None \<longrightarrow> p \<in> set (started s))
   \<and> (client s = None \<longrightarrow>
        inflight s = [] \<and> drains s = [] \<and> (\<forall>p. promises s p = None)
        \<and> store_resolved s = [])
   \<and> (\<forall>p\<in>set (waiting_options s) \<union> set (init_resume s) \<union> set (store_resolved s)
          \<union> fst ` set (drains s). p < next_pid s)"

text \<open>
  A listener reaches its backend call when \<^verbatim>\<open>config.hasOwnProperty('rename')\<close> does
  not throw, that is, when the merged config has no own key \<^verbatim>\<open>hasOwnProperty\<close>.
\<close>

definition method_shadowed :: "obj \<Rightarrow> bool" where
  "method_shadowed cfg \<longleftrightarrow> map_of cfg ''hasOwnProperty'' \<noteq> None"

definition sends :: "state \<Rightarrow> task \<Rightarrow> bool" where
  "sends s t \<longleftrightarrow> \<not> method_shadowed (merged_config s (t_config t))"

text \<open>
  The listeners are entered in the order the drains took them, and the backend calls
  made so far belong, in that order, to some of the listeners entered.
\<close>

definition calls_in_order :: "state \<Rightarrow> bool" where
  "calls_in_order s \<longleftrightarrow>
     executed s = started s \<and> subseq (map fst (backend_calls s)) (executed s)"

text \<open>
  A task in flight carries the merged config it was sent with; merged again, as a
  resubmission does, that config still lets the listener reach the backend.
\<close>

definition inflight_sendable :: "state \<Rightarrow> bool" where
  "inflight_sendable s \<longleftrightarrow> (\<forall>t\<in>set (inflight s). sends s t)"

text \<open>
  After the first drain every call drains at once, so the queue is empty between
  steps; and between the construction of the client and the first drain, the call
  that constructed it is the one whose \<^verbatim>\<open>getStore\<close> promise resolved and whose
  \<^verbatim>\<open>#init\<close> is about to continue.
\<close>

definition drain_phase :: "state \<Rightarrow> bool" where
  "drain_phase s \<longleftrightarrow>
     (drains s \<noteq> [] \<longrightarrow> event s = [])
   \<and> (client s \<noteq> None \<and> drains s = [] \<longrightarrow>
        (\<exists>l. init_resume s = [l] \<and> store_resolved s = [l]))"

text \<open>Every resubmission recorded so far created a call that exists.\<close>

definition resubmits_bounded :: "state \<Rightarrow> bool" where
  "resubmits_bounded s \<longleftrightarrow> (\<forall>r\<in>set (resubmits s). snd r < next_pid s)"

text \<open>
  A call that \<^verbatim>\<open>getStore\<close> left pending: it waits for no options, no continuation of
  its \<^verbatim>\<open>#init\<close> is scheduled, its \<^verbatim>\<open>getStore\<close> promise has not resolved and its
  \<^verbatim>\<open>#init\<close> has not emitted.
\<close>

definition deferred :: "pid \<Rightarrow> state \<Rightarrow> bool" where
  "deferred p s \<longleftrightarrow>
     p < next_pid s \<and> p \<notin> set (waiting_options s) \<and> p \<notin> set (init_resume s)
   \<and> p \<notin> set (store_resolved s) \<and> p \<notin> fst ` set (drains s)"

text \<open>The retry counter of a key as the handler reads it: absent counts as zero.\<close>

definition retries_made :: "state \<Rightarrow> string \<Rightarrow> int" where
  "retries_made s name = (case retryQueue s name of None \<Rightarrow> 0 | Some n \<Rightarrow> n)"

text \<open>
  While a task is in flight the queue is empty: tasks are only in flight after a
  drain, and with a client every call drains at once.
\<close>

definition quiet_queue :: "state \<Rightarrow> bool" where
  "quiet_queue s \<longleftrightarrow> (inflight s \<noteq> [] \<longrightarrow> event s = [])"

section \<open>A backend that always fails\<close>


section \<open>The earlier class\<close>


section \<open>Example instances\<close>

text \<open>
  Concrete collaborators and options on which the theorems are evaluated: a backend
  whose construction succeeds and one whose constructor throws, with options that
  resolve asynchronously or not.
\<close>

definition example_env :: env where
  "example_env =
     \<lparr> construct = (\<lambda>ops. Inr 1),
       getOptions_thenable = True,
       generateFilename = (\<lambda>name rn root n. root @ ''/'' @ name),
       formatResponse = (\<lambda>raw cdn url. Inr raw) \<rparr>"

definition failing_env :: env where
  "failing_env = example_env\<lparr>construct := (\<lambda>ops. Inl (Thrown ''bad endpoint''))\<rparr>"

definition example_options :: options where
  "example_options =
     \<lparr> rootPath = ''media'', rename = False, enableCdn = False, cdnUrl = [],
       retryCount = 2,
       config = Some [(''headers'', JObj [(''Cache-Control'', JStr ''public'')]),
                      (''timeout'', JNum 60)],
       other = [],
       async = False \<rparr>"

definition async_options :: options where
  "async_options = example_options\<lparr>async := True\<rparr>"

definition example_patch :: options_patch where
  "example_patch =
     \<lparr> p_rootPath = None, p_rename = None, p_enableCdn = None, p_cdnUrl = None,
       p_retryCount = Some 1, p_config = Some [(''timeout'', JNum 5)],
       p_other = [(''stsToken'', JStr ''t1'')], p_async = None \<rparr>"

section \<open>Objects, and what a drain leaves unchanged\<close>

lemma map_of_assign: "map_of (assign k v ob) = (map_of ob)(k \<mapsto> v)"
  by (induction ob) auto

lemma map_of_filter_other:
  "map_of (filter (\<lambda>kv. fst kv \<noteq> k) xs) k' = (if k' = k then None else map_of xs k')"
  by (induction xs) auto

lemma settle_fields [simp]:
  "opts (settle p out s) = opts s"
  "client (settle p out s) = client s"
  "event (settle p out s) = event s"
  "retryQueue (settle p out s) = retryQueue s"
  "uid (settle p out s) = uid s"
  "next_pid (settle p out s) = next_pid s"
  "waiting_options (settle p out s) = waiting_options s"
  "init_resume (settle p out s) = init_resume s"
  "inflight (settle p out s) = inflight s"
  "constructed (settle p out s) = constructed s"
  "options_calls (settle p out s) = options_calls s"
  "store_resolved (settle p out s) = store_resolved s"
  "drains (settle p out s) = drains s"
  "executed (settle p out s) = executed s"
  "backend_calls (settle p out s) = backend_calls s"
  "settled (settle p out s) = settled s"
  "resubmits (settle p out s) = resubmits s"
  by (simp_all add: settle_def split: option.splits)

lemma settle_promises:
  "promises (settle p out s) q =
     (if q = p \<and> promises s p = None then Some out else promises s q)"
  by (simp add: settle_def split: option.splits)

lemma map_of_spread:
  "map_of (spread a b) k = (case map_of b k of None \<Rightarrow> map_of a k | Some v \<Rightarrow> Some v)"
proof (induction a b rule: spread.induct)
  case (1 a)
  then show ?case by simp
next
  case (2 a k0 v rest)
  then show ?case
    by (auto simp: map_of_filter_other map_of_assign split: option.splits)
qed

lemma map_of_deepMerge:
  "map_of (deepMerge base cfg) k =
     (case map_of cfg k of
        None \<Rightarrow> map_of base k
      | Some v \<Rightarrow>
          Some (case v of
                  JObj ov \<Rightarrow>
                    (case map_of base k of Some (JObj bv) \<Rightarrow> JObj (deepMerge bv ov) | _ \<Rightarrow> v)
                | _ \<Rightarrow> v))"
proof (induction base cfg rule: deepMerge.induct)
  case (1 base)
  then show ?case by simp
next
  case (2 base k0 v rest)
  show ?case
    apply (subst deepMerge.simps)
    apply (subst 2(2))
    apply (auto simp: map_of_filter_other map_of_assign split: option.splits jv.splits)
    done
qed

lemma deepMerge_key_absent:
  "map_of (deepMerge base cfg) k = None \<longleftrightarrow> map_of base k = None \<and> map_of cfg k = None"
  by (simp add: map_of_deepMerge split: option.splits)

lemma sends_cong: "opts s' = opts s \<Longrightarrow> sends s' t = sends s t"
  by (simp add: sends_def merged_config_def)

lemma sends_rename_of:
  "sends s t \<longleftrightarrow> (\<exists>rn. rename_of s (merged_config s (t_config t)) = Inr rn)"
  by (simp add: sends_def method_shadowed_def rename_of_def hasOwnProperty_def)

lemma not_sends_rename_of:
  "\<not> sends s t \<Longrightarrow> rename_of s (merged_config s (t_config t)) = Inl TypeError"
  by (simp add: sends_def method_shadowed_def rename_of_def hasOwnProperty_def)

text \<open>A config that was sent is sent again when it is merged again, with or without the retry flag.\<close>

lemma sends_merged:
  assumes "sends s t" and "opts s' = opts s"
    and "t_config u = merged_config s (t_config t)
       \<or> t_config u = assign ''__isRetry'' (JBool True) (merged_config s (t_config t))"
  shows "sends s' u"
  using assms
  by (auto simp add: sends_def method_shadowed_def merged_config_def deepMerge_key_absent
        map_of_assign)

lemma run_task_frame [simp]:
    "opts (run_task e s t) = opts s"
    "client (run_task e s t) = client s"
    "event (run_task e s t) = event s"
    "next_pid (run_task e s t) = next_pid s"
    "waiting_options (run_task e s t) = waiting_options s"
    "init_resume (run_task e s t) = init_resume s"
    "constructed (run_task e s t) = constructed s"
    "options_calls (run_task e s t) = options_calls s"
    "store_resolved (run_task e s t) = store_resolved s"
    "drains (run_task e s t) = drains s"
    "settled (run_task e s t) = settled s"
    "resubmits (run_task e s t) = resubmits s"
    "executed (run_task e s t) = executed s @ [t_owner t]"
  by (simp_all add: run_task_def put_task_def multipart_task_def Let_def
        split: kind.splits option.splits sum.splits)

text \<open>A listener whose \<^verbatim>\<open>hasOwnProperty\<close> call throws only rejects its promise.\<close>

lemma run_task_thrown:
  "\<not> sends s t \<Longrightarrow>
     run_task e s t
       = settle (t_owner t) (Rejected TypeError) (s\<lparr>executed := executed s @ [t_owner t]\<rparr>)"
  by (simp add: run_task_def put_task_def multipart_task_def Let_def not_sends_rename_of
        split: kind.splits)

lemma run_task_promises:
  "client s = Some c \<Longrightarrow>
     promises (run_task e s t) q =
       (if \<not> sends s t \<and> q = t_owner t \<and> promises s q = None
        then Some (Rejected TypeError) else promises s q)"
proof (cases "sends s t")
  case True
  assume "client s = Some c"
  moreover from True obtain rn where "rename_of s (merged_config s (t_config t)) = Inr rn"
    by (auto simp: sends_rename_of)
  ultimately show ?thesis using True
    by (simp add: run_task_def put_task_def multipart_task_def Let_def split: kind.splits)
next
  case False
  then show ?thesis by (auto simp add: run_task_thrown settle_promises)
qed

lemma run_task_sent:
  assumes "client s = Some c" and "sends s t"
  shows "\<exists>t'. inflight (run_task e s t) = inflight s @ [t'] \<and> t_owner t' = t_owner t
        \<and> t_kind t' = t_kind t \<and> t_data t' = t_data t
        \<and> t_config t' = merged_config s (t_config t)
        \<and> backend_calls (run_task e s t)
            = backend_calls s @ [(t_owner t, t_kind t, t_filename t', t_data t, t_config t')]"
proof -
  from assms(2) obtain rn where "rename_of s (merged_config s (t_config t)) = Inr rn"
    by (auto simp: sends_rename_of)
  with assms(1) show ?thesis
    by (simp add: run_task_def put_task_def multipart_task_def Let_def split: kind.splits)
qed

lemma run_task_not_sent:
  assumes "\<not> sends s t"
  shows "inflight (run_task e s t) = inflight s"
    and "backend_calls (run_task e s t) = backend_calls s"
    and "retryQueue (run_task e s t) = retryQueue s"
    and "uid (run_task e s t) = uid s"
  using assms by (simp_all add: run_task_thrown)

lemma run_task_no_client:
  "client s = None \<Longrightarrow> inflight (run_task e s t) = inflight s"
  "client s = None \<Longrightarrow> backend_calls (run_task e s t) = backend_calls s"
  by (simp_all add: run_task_def put_task_def multipart_task_def Let_def
        split: kind.splits sum.splits)

lemma foldl_run_task_frame [simp]:
    "opts (foldl (run_task e) s ts) = opts s"
    "client (foldl (run_task e) s ts) = client s"
    "event (foldl (run_task e) s ts) = event s"
    "next_pid (foldl (run_task e) s ts) = next_pid s"
    "waiting_options (foldl (run_task e) s ts) = waiting_options s"
    "init_resume (foldl (run_task e) s ts) = init_resume s"
    "constructed (foldl (run_task e) s ts) = constructed s"
    "options_calls (foldl (run_task e) s ts) = options_calls s"
    "store_resolved (foldl (run_task e) s ts) = store_resolved s"
    "drains (foldl (run_task e) s ts) = drains s"
    "settled (foldl (run_task e) s ts) = settled s"
    "resubmits (foldl (run_task e) s ts) = resubmits s"
  by (induction ts arbitrary: s; simp)+

lemma foldl_run_task_executed [simp]:
  "executed (foldl (run_task e) s ts) = executed s @ map t_owner ts"
  by (induction ts arbitrary: s) simp_all

lemma foldl_run_task_promises:
  "client s = Some c \<Longrightarrow>
     promises (foldl (run_task e) s ts) q =
       (if q \<in> t_owner ` {t \<in> set ts. \<not> sends s t} \<and> promises s q = None
        then Some (Rejected TypeError) else promises s q)"
proof (induction ts arbitrary: s)
  case Nil
  then show ?case by simp
next
  case (Cons t ts)
  have c: "client (run_task e s t) = Some c" using Cons.prems by simp
  have sn: "sends (run_task e s t) = sends s"
    by (rule ext, rule sends_cong) simp
  show ?case
    using Cons.IH [OF c] run_task_promises [OF Cons.prems, of e t]
    by (auto simp add: sn)
qed

lemma foldl_run_task_inflight:
  "client s = Some c \<Longrightarrow>
     \<exists>ts'. inflight (foldl (run_task e) s ts) = inflight s @ ts'
        \<and> map t_owner ts' = map t_owner (filter (sends s) ts)
        \<and> map t_kind ts' = map t_kind (filter (sends s) ts)
        \<and> (\<forall>u\<in>set ts'. sends s u)
        \<and> map fst (backend_calls (foldl (run_task e) s ts))
            = map fst (backend_calls s) @ map t_owner (filter (sends s) ts)"
proof (induction ts arbitrary: s)
  case Nil
  then show ?case by simp
next
  case (Cons t ts)
  have c: "client (run_task e s t) = Some c" using Cons.prems by simp
  have sn: "sends (run_task e s t) = sends s"
    by (rule ext, rule sends_cong) simp
  from Cons.IH [OF c] obtain ts' where
    ih: "inflight (foldl (run_task e) (run_task e s t) ts) = inflight (run_task e s t) @ ts'"
      "map t_owner ts' = map t_owner (filter (sends s) ts)"
      "map t_kind ts' = map t_kind (filter (sends s) ts)"
      "\<forall>u\<in>set ts'. sends s u"
      "map fst (backend_calls (foldl (run_task e) (run_task e s t) ts))
         = map fst (backend_calls (run_task e s t)) @ map t_owner (filter (sends s) ts)"
    unfolding sn by blast
  show ?case
  proof (cases "sends s t")
    case True
    from run_task_sent [OF Cons.prems True, of e] obtain t' where
      t': "inflight (run_task e s t) = inflight s @ [t']" "t_owner t' = t_owner t"
        "t_kind t' = t_kind t" "t_config t' = merged_config s (t_config t)"
        "backend_calls (run_task e s t)
            = backend_calls s @ [(t_owner t, t_kind t, t_filename t', t_data t, t_config t')]"
      by blast
    have st: "sends s t'" by (rule sends_merged [OF True]) (simp_all add: t')
    have 1: "inflight (foldl (run_task e) s (t # ts)) = inflight s @ (t' # ts')"
      by (simp add: ih(1) t'(1))
    have 2: "map fst (backend_calls (foldl (run_task e) s (t # ts)))
            = map fst (backend_calls s) @ map t_owner (filter (sends s) (t # ts))"
      using True by (simp add: ih(5) t'(5))
    have 3: "map t_owner (t' # ts') = map t_owner (filter (sends s) (t # ts))"
      "map t_kind (t' # ts') = map t_kind (filter (sends s) (t # ts))"
      using True by (simp_all add: ih t'(2,3))
    have 4: "\<forall>u\<in>set (t' # ts'). sends s u" using st ih(4) by simp
    from 1 2 3 4 show ?thesis by blast
  next
    case False
    have 1: "inflight (foldl (run_task e) s (t # ts)) = inflight s @ ts'"
      using False by (simp add: ih(1) run_task_not_sent)
    have 2: "map fst (backend_calls (foldl (run_task e) s (t # ts)))
            = map fst (backend_calls s) @ map t_owner (filter (sends s) (t # ts))"
      using False by (simp add: ih(5) run_task_not_sent)
    have 3: "map t_owner ts' = map t_owner (filter (sends s) (t # ts))"
      "map t_kind ts' = map t_kind (filter (sends s) (t # ts))"
      using False by (simp_all add: ih)
    from 1 2 3 ih(4) show ?thesis by blast
  qed
qed

lemma emit_frame [simp]:
    "opts (emit e who s) = opts s"
    "client (emit e who s) = client s"
    "event (emit e who s) = []"
    "next_pid (emit e who s) = next_pid s"
    "waiting_options (emit e who s) = waiting_options s"
    "init_resume (emit e who s) = init_resume s"
    "constructed (emit e who s) = constructed s"
    "options_calls (emit e who s) = options_calls s"
    "store_resolved (emit e who s) = store_resolved s"
    "drains (emit e who s) = drains s @ [(who, map t_owner (event s))]"
    "settled (emit e who s) = settled s"
    "resubmits (emit e who s) = resubmits s"
    "executed (emit e who s) = executed s @ map t_owner (event s)"
  by (simp_all add: emit_def Let_def)

lemma emit_promises:
  "client s = Some c \<Longrightarrow>
     promises (emit e who s) q =
       (if q \<in> t_owner ` {t \<in> set (event s). \<not> sends s t} \<and> promises s q = None
        then Some (Rejected TypeError) else promises s q)"
  by (simp add: emit_def Let_def foldl_run_task_promises)

lemma emit_inflight:
  "client s = Some c \<Longrightarrow>
     \<exists>ts'. inflight (emit e who s) = inflight s @ ts'
        \<and> map t_owner ts' = map t_owner (filter (sends s) (event s))
        \<and> map t_kind ts' = map t_kind (filter (sends s) (event s))
        \<and> (\<forall>u\<in>set ts'. sends s u)
        \<and> map fst (backend_calls (emit e who s))
            = map fst (backend_calls s) @ map t_owner (filter (sends s) (event s))"
  using foldl_run_task_inflight [of s c e "event s"] by (simp add: emit_def Let_def)

lemma started_emit [simp]:
  "started (emit e who s) = started s @ map t_owner (event s)"
  by (simp add: started_def)

section \<open>Single flight is an invariant\<close>

lemma single_flight_initial: "single_flight (initial ops)"
  by (simp add: single_flight_def initial_def)

lemma single_flight_cong:
  assumes "single_flight s"
    and "constructed s' = constructed s" "waiting_options s' = waiting_options s"
    and "options_calls s' = options_calls s" "client s' = client s"
    and "init_resume s' = init_resume s" "event s' = event s"
  shows "single_flight s'"
  using assms by (simp add: single_flight_def)

lemma single_flight_invoke:
  assumes "single_flight s"
  shows "single_flight (invoke e k f d cfg s)"
proof (cases "client s")
  case (Some c)
  with assms show ?thesis
    by (simp add: single_flight_def invoke_def init_def on_def Let_def)
next
  case None
  show ?thesis
  proof (cases "event s = []")
    case True
    with None assms show ?thesis
      by (auto simp add: single_flight_def invoke_def init_def on_def getStore_def
            construct_client_def Let_def split: sum.splits)
  next
    case False
    then have "int (length (event s @ [t])) - 1 \<noteq> 0" for t
      by (cases "event s") simp_all
    with None False assms show ?thesis
      by (simp add: single_flight_def invoke_def init_def on_def getStore_def Let_def)
  qed
qed

lemma single_flight_options_settled:
  assumes "single_flight s"
  shows "single_flight (options_settled e r s)"
proof (cases "waiting_options s")
  case Nil
  with assms show ?thesis by (simp add: options_settled_def)
next
  case (Cons who rest)
  with assms have c: "constructed s = []" "rest = []" "client s = None" "event s \<noteq> []"
    by (auto simp: single_flight_def)
  with Cons assms show ?thesis
    by (auto simp add: single_flight_def options_settled_def construct_client_def Let_def
          split: sum.splits)
qed

lemma single_flight_tick:
  assumes "single_flight s"
  shows "single_flight (tick e s)"
proof (cases "init_resume s")
  case Nil
  with assms show ?thesis by (simp add: tick_def)
next
  case (Cons who rest)
  with assms have "client s \<noteq> None" by (auto simp: single_flight_def)
  with Cons assms show ?thesis
    by (auto simp add: single_flight_def tick_def)
qed

lemma format_and_resolve_frame [simp]:
  "opts (format_and_resolve e p raw s) = opts s"
  "client (format_and_resolve e p raw s) = client s"
  "event (format_and_resolve e p raw s) = event s"
  "retryQueue (format_and_resolve e p raw s) = retryQueue s"
  "next_pid (format_and_resolve e p raw s) = next_pid s"
  "waiting_options (format_and_resolve e p raw s) = waiting_options s"
  "init_resume (format_and_resolve e p raw s) = init_resume s"
  "inflight (format_and_resolve e p raw s) = inflight s"
  "constructed (format_and_resolve e p raw s) = constructed s"
  "options_calls (format_and_resolve e p raw s) = options_calls s"
  "store_resolved (format_and_resolve e p raw s) = store_resolved s"
  "drains (format_and_resolve e p raw s) = drains s"
  "executed (format_and_resolve e p raw s) = executed s"
  "backend_calls (format_and_resolve e p raw s) = backend_calls s"
  "settled (format_and_resolve e p raw s) = settled s"
  "resubmits (format_and_resolve e p raw s) = resubmits s"
  by (simp_all add: format_and_resolve_def split: sum.splits)

lemma single_flight_settle:
  "single_flight s \<Longrightarrow> single_flight (settle p out s)"
  by (simp add: single_flight_def)

lemma single_flight_format:
  "single_flight s \<Longrightarrow> single_flight (format_and_resolve e p raw s)"
  by (simp add: single_flight_def)

lemma single_flight_multipart_failed:
  assumes "single_flight s"
  shows "single_flight (multipart_failed e t err c s)"
proof -
  have pre: "single_flight (s1\<lparr>retryQueue := rq, resubmits := rs\<rparr>)"
    if "single_flight s1" for s1 rq rs
    using that by (simp add: single_flight_def)
  have pre1: "single_flight (s\<lparr>retryQueue := rq\<rparr>)" for rq
    using assms by (simp add: single_flight_def)
  show ?thesis
    unfolding multipart_failed_def Let_def multipartUpload_def
    by (simp add: single_flight_settle single_flight_invoke pre pre1 assms)
qed

lemma single_flight_backend_settled:
  assumes "single_flight s"
  shows "single_flight (backend_settled e p r s)"
proof -
  have pre: "single_flight (s\<lparr>inflight := fl, settled := st\<rparr>)" for fl st
    using assms by (simp add: single_flight_def)
  show ?thesis
    unfolding backend_settled_def Let_def
    by (simp add: single_flight_settle single_flight_format single_flight_multipart_failed
          pre assms split: list.splits backend_result.splits kind.splits)
qed

lemma single_flight_step:
  "single_flight s \<Longrightarrow> single_flight (step e s a)"
  by (cases a)
    (simp_all add: put_def multipartUpload_def single_flight_invoke
      single_flight_options_settled single_flight_tick single_flight_backend_settled)

lemma single_flight_run:
  "single_flight s \<Longrightarrow> single_flight (run e s acts)"
  unfolding run_def by (induction acts arbitrary: s) (simp_all add: single_flight_step)

section \<open>A cached client is kept\<close>

lemma invoke_with_client:
  "client s = Some c \<Longrightarrow>
     invoke e k f d cfg s =
       emit e (next_pid s)
         (on \<lparr> t_key = uid s, t_kind = k, t_owner = next_pid s, t_filename = f,
                t_data = d, t_config = cfg \<rparr>
            (s\<lparr>next_pid := Suc (next_pid s), uid := Suc (uid s)\<rparr>))"
  by (simp add: invoke_def init_def on_def Let_def)

lemma invoke_stable:
  assumes "client s = Some c"
  shows "client (invoke e k f d cfg s) = Some c"
    "opts (invoke e k f d cfg s) = opts s"
    "constructed (invoke e k f d cfg s) = constructed s"
    "options_calls (invoke e k f d cfg s) = options_calls s"
    "waiting_options (invoke e k f d cfg s) = waiting_options s"
    "init_resume (invoke e k f d cfg s) = init_resume s"
    "store_resolved (invoke e k f d cfg s) = store_resolved s"
  using assms by (simp_all add: invoke_with_client on_def)

lemma multipart_failed_stable:
  assumes "client s = Some c"
  shows "client (multipart_failed e t err cn s) = Some c"
    "opts (multipart_failed e t err cn s) = opts s"
    "constructed (multipart_failed e t err cn s) = constructed s"
    "options_calls (multipart_failed e t err cn s) = options_calls s"
    "waiting_options (multipart_failed e t err cn s) = waiting_options s"
    "init_resume (multipart_failed e t err cn s) = init_resume s"
    "store_resolved (multipart_failed e t err cn s) = store_resolved s"
  using assms
  by (simp_all add: multipart_failed_def multipartUpload_def Let_def invoke_stable)

lemma backend_settled_stable:
  assumes "client s = Some c"
  shows "client (backend_settled e p r s) = Some c"
    "opts (backend_settled e p r s) = opts s"
    "constructed (backend_settled e p r s) = constructed s"
    "options_calls (backend_settled e p r s) = options_calls s"
    "waiting_options (backend_settled e p r s) = waiting_options s"
    "init_resume (backend_settled e p r s) = init_resume s"
    "store_resolved (backend_settled e p r s) = store_resolved s"
  using assms
  by (simp_all add: backend_settled_def Let_def multipart_failed_stable
        split: list.splits backend_result.splits kind.splits)

lemma step_keeps_client:
  assumes "single_flight s" and "client s = Some c"
  shows "client (step e s a) = Some c \<and> constructed (step e s a) = constructed s
     \<and> options_calls (step e s a) = options_calls s"
proof -
  from assms have w: "waiting_options s = []"
    by (cases "constructed s") (auto simp: single_flight_def)
  show ?thesis
  proof (cases a)
    case (OptionsSettle r)
    with w assms show ?thesis by (simp add: options_settled_def)
  next
    case Tick
    with assms show ?thesis by (simp add: tick_def split: list.splits)
  qed (simp_all add: put_def multipartUpload_def invoke_stable backend_settled_stable assms)
qed

lemma run_keeps_client:
  assumes "single_flight s" and "client s = Some c"
  shows "client (run e s acts) = Some c \<and> constructed (run e s acts) = constructed s
     \<and> options_calls (run e s acts) = options_calls s"
  using assms
proof (induction acts arbitrary: s)
  case Nil
  then show ?case by (simp add: run_def)
next
  case (Cons a acts)
  from step_keeps_client [OF Cons.prems, of e a]
  have k: "client (step e s a) = Some c" "constructed (step e s a) = constructed s"
    "options_calls (step e s a) = options_calls s" by simp_all
  from Cons.IH [OF single_flight_step [OF Cons.prems(1)] k(1)] k
  show ?case by (simp add: run_def)
qed

lemma getStore_constructs:
  assumes "constructed (getStore e who s) \<noteq> constructed s
     \<or> waiting_options (getStore e who s) \<noteq> waiting_options s
     \<or> options_calls (getStore e who s) \<noteq> options_calls s"
  shows "client s = None \<and> length (event s) = 1"
proof -
  have "int (length (event s)) - 1 \<noteq> 0" if "length (event s) \<noteq> 1"
    using that by linarith
  with assms show ?thesis
    by (cases "client s"; cases "length (event s) = 1")
       (auto simp: getStore_def)
qed

section \<open>Bookkeeping is an invariant\<close>

lemma bookkeeping_initial: "bookkeeping (initial ops)"
  by (simp add: bookkeeping_def initial_def started_def)

lemma started_frame [simp]:
  "started (s\<lparr>next_pid := n\<rparr>) = started s"
  "started (s\<lparr>uid := u\<rparr>) = started s"
  "started (s\<lparr>event := ev\<rparr>) = started s"
  "started (s\<lparr>inflight := fl\<rparr>) = started s"
  "started (s\<lparr>retryQueue := rq\<rparr>) = started s"
  "started (s\<lparr>resubmits := rs\<rparr>) = started s"
  "started (s\<lparr>waiting_options := w\<rparr>) = started s"
  "started (s\<lparr>options_calls := oc\<rparr>) = started s"
  "started (s\<lparr>constructed := cs\<rparr>) = started s"
  "started (s\<lparr>client := cl\<rparr>) = started s"
  "started (s\<lparr>store_resolved := sr\<rparr>) = started s"
  "started (s\<lparr>init_resume := ir\<rparr>) = started s"
  "started (s\<lparr>opts := ops\<rparr>) = started s"
  "started (s\<lparr>promises := pr\<rparr>) = started s"
  "started (s\<lparr>executed := ex\<rparr>) = started s"
  "started (s\<lparr>backend_calls := bc\<rparr>) = started s"
  "started (s\<lparr>settled := st\<rparr>) = started s"
  "started (settle p out s) = started s"
  "started (format_and_resolve e p raw s) = started s"
  by (simp_all add: started_def)

lemma bookkeeping_register:
  assumes "bookkeeping s" and "t_owner t = next_pid s"
  shows "bookkeeping (on t (s\<lparr>next_pid := Suc (next_pid s), uid := u\<rparr>))"
  using assms by (auto simp add: bookkeeping_def on_def less_Suc_eq)

lemma distinct_map_filter_apart:
  assumes "distinct (map f xs)" and "x \<in> set xs" "P x" and "y \<in> set xs" "\<not> P y"
  shows "f x \<noteq> f y"
proof
  assume "f x = f y"
  moreover from assms(1) have "inj_on f (set xs)" by (simp add: distinct_map)
  ultimately have "x = y" using assms(2,4) by (auto dest: inj_onD)
  with assms(3,5) show False by simp
qed

lemma bookkeeping_emit:
  assumes bk: "bookkeeping s" and c: "client s = Some c" and who: "who < next_pid s"
  shows "bookkeeping (emit e who s)"
proof -
  from emit_inflight [OF c, of e who] obtain ts' where
    fl: "inflight (emit e who s) = inflight s @ ts'"
      "map t_owner ts' = map t_owner (filter (sends s) (event s))" by blast
  note pr = emit_promises [OF c, of e who]
  from bk have fifo: "started s @ map t_owner (event s) = [0..<next_pid s]"
    by (simp add: bookkeeping_def)
  have d: "distinct (started s @ map t_owner (event s))" by (simp add: fifo)
  then have d1: "distinct (map t_owner (event s))"
    and d2: "set (started s) \<inter> set (map t_owner (event s)) = {}" by simp_all
  from bk have b2: "distinct (map t_owner (inflight s))"
    and b3: "set (map t_owner (inflight s)) \<subseteq> set (started s)"
    by (simp_all add: bookkeeping_def)
  have sub: "set (map t_owner ts') \<subseteq> set (map t_owner (event s))"
    unfolding fl(2) by auto
  have dts: "distinct (map t_owner ts')"
    unfolding fl(2) using d1 by (rule distinct_map_filter)
  have ev_pr: "promises s q = None" if "q \<in> set (map t_owner (event s))" for q
  proof (rule ccontr)
    assume "promises s q \<noteq> None"
    with bk have "q \<in> set (started s)" by (simp add: bookkeeping_def)
    with d2 that show False by auto
  qed
  have apart: "q \<notin> t_owner ` {t \<in> set (event s). \<not> sends s t}"
    if "q \<in> set (map t_owner ts')" for q
  proof
    assume "q \<in> t_owner ` {t \<in> set (event s). \<not> sends s t}"
    then obtain y where y: "y \<in> set (event s)" "\<not> sends s y" "q = t_owner y" by auto
    from that obtain x where x: "x \<in> set (event s)" "sends s x" "q = t_owner x"
      unfolding fl(2) by auto
    from distinct_map_filter_apart [OF d1 x(1,2) y(1,2)] x(3) y(3) show False by simp
  qed
  have 1: "started (emit e who s) @ map t_owner (event (emit e who s)) = [0..<next_pid (emit e who s)]"
    using fifo by simp
  have "set (map t_owner (inflight s)) \<inter> set (map t_owner ts') = {}"
    using b3 sub d2 by blast
  then have 2: "distinct (map t_owner (inflight (emit e who s)))"
    using b2 dts by (simp add: fl(1))
  have 3: "set (map t_owner (inflight (emit e who s))) \<subseteq> set (started (emit e who s))"
    using b3 sub fl(1) by auto
  have 4: "\<forall>t\<in>set (inflight (emit e who s)). promises (emit e who s) (t_owner t) = None"
  proof
    fix t assume "t \<in> set (inflight (emit e who s))"
    then consider "t \<in> set (inflight s)" | "t \<in> set ts'" using fl by auto
    then show "promises (emit e who s) (t_owner t) = None"
    proof cases
      case 1
      with b3 have "t_owner t \<in> set (started s)" by auto
      with d2 have "t_owner t \<notin> t_owner ` {t \<in> set (event s). \<not> sends s t}" by auto
      moreover from 1 bk have "promises s (t_owner t) = None" by (simp add: bookkeeping_def)
      ultimately show ?thesis by (simp add: pr)
    next
      case 2
      then have m: "t_owner t \<in> set (map t_owner ts')" by simp
      with sub have "promises s (t_owner t) = None" by (intro ev_pr) auto
      with apart [OF m] show ?thesis by (simp add: pr)
    qed
  qed
  have 5: "\<forall>p. promises (emit e who s) p \<noteq> None \<longrightarrow> p \<in> set (started (emit e who s))"
  proof -
    from bk have "\<And>p. promises s p \<noteq> None \<Longrightarrow> p \<in> set (started s)"
      by (simp add: bookkeeping_def)
    then show ?thesis by (auto simp: pr)
  qed
  have 6: "client (emit e who s) \<noteq> None" using c by simp
  have 7: "\<forall>p\<in>set (waiting_options (emit e who s)) \<union> set (init_resume (emit e who s))
          \<union> set (store_resolved (emit e who s)) \<union> fst ` set (drains (emit e who s)).
          p < next_pid (emit e who s)"
    using bk who by (auto simp: bookkeeping_def)
  from 1 2 3 4 5 6 7 show ?thesis unfolding bookkeeping_def by blast
qed

lemma bookkeeping_construct_client:
  assumes "bookkeeping s" and "who < next_pid s"
  shows "bookkeeping (construct_client e who s)"
  using assms
  by (auto simp add: bookkeeping_def construct_client_def Let_def started_def split: sum.splits)

lemma bookkeeping_getStore:
  assumes "bookkeeping s" and "who < next_pid s"
  shows "bookkeeping (getStore e who s)"
proof -
  have a: "bookkeeping (s\<lparr>options_calls := oc\<rparr>)" for oc
    using assms by (simp add: bookkeeping_def started_def)
  have b: "bookkeeping (s\<lparr>options_calls := oc, waiting_options := waiting_options s @ [who]\<rparr>)"
    for oc
    using assms by (auto simp add: bookkeeping_def started_def)
  have c: "bookkeeping (s\<lparr>store_resolved := store_resolved s @ [who],
      init_resume := init_resume s @ [who]\<rparr>)" if "client s \<noteq> None"
    using assms that by (auto simp add: bookkeeping_def started_def)
  show ?thesis
    unfolding getStore_def Let_def
    by (simp add: a b c assms bookkeeping_construct_client split: option.splits)
qed

lemma bookkeeping_invoke:
  assumes bk: "bookkeeping s"
  shows "bookkeeping (invoke e k f d cfg s)"
proof -
  let ?t = "\<lparr> t_key = uid s, t_kind = k, t_owner = next_pid s, t_filename = f,
                t_data = d, t_config = cfg \<rparr>"
  let ?s0 = "on ?t (s\<lparr>next_pid := Suc (next_pid s), uid := Suc (uid s)\<rparr>)"
  have s0: "bookkeeping ?s0" by (rule bookkeeping_register [OF bk]) simp
  have n: "next_pid s < next_pid ?s0" by (simp add: on_def)
  have cl: "client ?s0 = client s" by (simp add: on_def)
  have inv: "invoke e k f d cfg s = init e (next_pid s) ?s0"
    by (simp add: invoke_def Let_def)
  show ?thesis
  proof (cases "client s")
    case None
    with cl have "init e (next_pid s) ?s0 = getStore e (next_pid s) ?s0"
      by (simp add: init_def)
    with bookkeeping_getStore [OF s0 n] inv show ?thesis by simp
  next
    case (Some c)
    with cl have "init e (next_pid s) ?s0 = emit e (next_pid s) ?s0"
      by (simp add: init_def)
    moreover have "client ?s0 = Some c" using Some cl by simp
    ultimately show ?thesis using bookkeeping_emit [OF s0 _ n] inv by simp
  qed
qed

lemma bookkeeping_options_settled:
  assumes "bookkeeping s"
  shows "bookkeeping (options_settled e r s)"
proof (cases "waiting_options s")
  case Nil
  with assms show ?thesis by (simp add: options_settled_def)
next
  case (Cons who rest)
  have "bookkeeping (s\<lparr>waiting_options := rest, opts := ops\<rparr>)" for ops
    using assms Cons by (auto simp add: bookkeeping_def started_def)
  moreover have "who < next_pid s" using assms Cons by (simp add: bookkeeping_def)
  ultimately show ?thesis
    using Cons by (simp add: options_settled_def bookkeeping_construct_client)
qed

lemma bookkeeping_tick:
  assumes "single_flight s" and "bookkeeping s"
  shows "bookkeeping (tick e s)"
proof (cases "init_resume s")
  case Nil
  with assms show ?thesis by (simp add: tick_def)
next
  case (Cons who rest)
  with assms(1) obtain c where c: "client s = Some c" by (auto simp: single_flight_def)
  have "bookkeeping (s\<lparr>init_resume := rest\<rparr>)"
    using assms(2) Cons by (auto simp add: bookkeeping_def started_def)
  moreover have "who < next_pid s" using assms(2) Cons by (simp add: bookkeeping_def)
  ultimately show ?thesis
    using Cons c by (simp add: tick_def bookkeeping_emit)
qed

lemma bookkeeping_settle:
  assumes "bookkeeping s" and "client s \<noteq> None" and "p \<in> set (started s)"
    and "p \<notin> t_owner ` set (inflight s)"
  shows "bookkeeping (settle p out s)"
  using assms
  by (auto simp add: bookkeeping_def settle_promises)

lemma bookkeeping_format:
  assumes "bookkeeping s" and "client s \<noteq> None" and "p \<in> set (started s)"
    and "p \<notin> t_owner ` set (inflight s)"
  shows "bookkeeping (format_and_resolve e p raw s)"
  using assms
  by (simp add: format_and_resolve_def bookkeeping_settle split: sum.splits)

lemma bookkeeping_retry_fields [simp]:
  "bookkeeping (s\<lparr>retryQueue := rq\<rparr>) = bookkeeping s"
  "bookkeeping (s\<lparr>resubmits := rs\<rparr>) = bookkeeping s"
  by (simp_all add: bookkeeping_def started_def)

lemma invoke_keeps_started:
  assumes bk: "bookkeeping s" and c: "client s = Some c"
    and p: "p \<in> set (started s)" "p \<notin> t_owner ` set (inflight s)"
  shows "p \<in> set (started (invoke e k f d cfg s))
     \<and> p \<notin> t_owner ` set (inflight (invoke e k f d cfg s))"
proof -
  let ?t = "\<lparr> t_key = uid s, t_kind = k, t_owner = next_pid s, t_filename = f,
                t_data = d, t_config = cfg \<rparr>"
  let ?s0 = "on ?t (s\<lparr>next_pid := Suc (next_pid s), uid := Suc (uid s)\<rparr>)"
  have inv: "invoke e k f d cfg s = emit e (next_pid s) ?s0"
    using c by (simp add: invoke_with_client)
  have c0: "client ?s0 = Some c" using c by (simp add: on_def)
  from emit_inflight [OF c0, of e "next_pid s"] obtain ts' where
    fl: "inflight (emit e (next_pid s) ?s0) = inflight ?s0 @ ts'"
      "map t_owner ts' = map t_owner (filter (sends ?s0) (event ?s0))" by blast
  from bk have fifo: "started s @ map t_owner (event s) = [0..<next_pid s]"
    by (simp add: bookkeeping_def)
  have d: "distinct (started s @ map t_owner (event s))" by (simp add: fifo)
  then have d2: "set (started s) \<inter> set (map t_owner (event s)) = {}" by simp
  have "set (started s) \<subseteq> set (started s @ map t_owner (event s))" by simp
  also have "\<dots> = {..<next_pid s}" by (simp only: fifo) auto
  finally have lt: "p < next_pid s" using p(1) by auto
  have "set (map t_owner ts') \<subseteq> set (map t_owner (event ?s0))"
    unfolding fl(2) by auto
  then have "set (map t_owner ts') \<subseteq> set (map t_owner (event s)) \<union> {next_pid s}"
    by (simp add: on_def)
  moreover have "p \<notin> set (map t_owner (event s)) \<union> {next_pid s}"
    using d2 p(1) lt by auto
  ultimately have "p \<notin> set (map t_owner ts')" by blast
  moreover have "inflight ?s0 = inflight s" by (simp add: on_def)
  ultimately have "p \<notin> t_owner ` set (inflight (emit e (next_pid s) ?s0))"
    using fl(1) p(2) by auto
  moreover have "p \<in> set (started (emit e (next_pid s) ?s0))"
    using p(1) by (simp add: on_def)
  ultimately show ?thesis by (simp add: inv)
qed

subsection \<open>The three ways a failed multipart upload ends\<close>

lemma multipart_failed_cancelled:
  "client s \<noteq> None \<Longrightarrow> cn \<Longrightarrow>
     multipart_failed e t err cn s = settle (t_owner t) (Rejected err) s"
  by (simp add: multipart_failed_def)

lemma multipart_failed_retry:
  assumes "\<not> (client s \<noteq> None \<and> cn)"
    and "retries_made s (t_filename t) < retryCount (opts s)"
  shows "multipart_failed e t err cn s =
     settle (t_owner t) (Rejected err)
       (multipartUpload e (t_filename t) (t_data t)
          (assign ''__isRetry'' (JBool True) (t_config t))
          (s\<lparr> retryQueue := (retryQueue s)
                   (t_filename t \<mapsto> retries_made s (t_filename t) + 1),
                resubmits := resubmits s @ [(t_filename t, next_pid s)] \<rparr>))"
  using assms
  by (auto simp add: multipart_failed_def retries_made_def Let_def split: option.splits)

lemma multipart_failed_exhausted:
  assumes "\<not> (client s \<noteq> None \<and> cn)"
    and "\<not> retries_made s (t_filename t) < retryCount (opts s)"
  shows "multipart_failed e t err cn s =
     settle (t_owner t) (Rejected err)
       (s\<lparr>retryQueue := (retryQueue s)(t_filename t \<mapsto> retries_made s (t_filename t))\<rparr>)"
proof (cases "retryQueue s (t_filename t)")
  case None
  with assms show ?thesis
    by (auto simp add: multipart_failed_def retries_made_def Let_def)
next
  case (Some n)
  then have "(retryQueue s)(t_filename t \<mapsto> n) = retryQueue s" by auto
  with Some assms show ?thesis
    by (auto simp add: multipart_failed_def retries_made_def Let_def)
qed

lemma bookkeeping_multipart_failed:
  assumes bk: "bookkeeping s" and c: "client s = Some c"
    and p: "t_owner t \<in> set (started s)" "t_owner t \<notin> t_owner ` set (inflight s)"
  shows "bookkeeping (multipart_failed e t err cn s)"
proof -
  let ?n = "t_filename t"
  have retry: "bookkeeping (settle (t_owner t) (Rejected err)
      (multipartUpload e ?n dat cfg (s\<lparr>retryQueue := rq, resubmits := rs\<rparr>)))"
    for dat cfg rq rs
  proof -
    let ?s2 = "s\<lparr>retryQueue := rq, resubmits := rs\<rparr>"
    have s2: "bookkeeping ?s2" "client ?s2 = Some c" using bk c by simp_all
    have p2: "t_owner t \<in> set (started ?s2)" "t_owner t \<notin> t_owner ` set (inflight ?s2)"
      using p by simp_all
    from invoke_keeps_started [OF s2 p2, of e MultipartOp ?n dat cfg]
      bookkeeping_invoke [OF s2(1), of e MultipartOp ?n dat cfg]
      invoke_stable(1) [OF s2(2), of e MultipartOp ?n dat cfg]
    show ?thesis
      unfolding multipartUpload_def by (intro bookkeeping_settle) simp_all
  qed
  have plain: "bookkeeping (settle (t_owner t) (Rejected err) (s\<lparr>retryQueue := rq\<rparr>))" for rq
    using bk p c by (intro bookkeeping_settle) simp_all
  have direct: "bookkeeping (settle (t_owner t) (Rejected err) s)"
    using bk p c by (intro bookkeeping_settle) simp_all
  show ?thesis
  proof (cases "client s \<noteq> None \<and> cn")
    case True
    with direct show ?thesis by (simp add: multipart_failed_cancelled)
  next
    case False
    show ?thesis
    proof (cases "retries_made s ?n < retryCount (opts s)")
      case True
      show ?thesis by (simp only: multipart_failed_retry [OF False True] retry)
    next
      case nolimit: False
      show ?thesis by (simp only: multipart_failed_exhausted [OF False nolimit] plain)
    qed
  qed
qed

lemma bookkeeping_backend_settled:
  assumes bk: "bookkeeping s"
  shows "bookkeeping (backend_settled e p r s)"
proof (cases "filter (\<lambda>t. t_owner t = p) (inflight s)")
  case Nil
  with bk show ?thesis by (simp add: backend_settled_def)
next
  case (Cons t ts)
  let ?s1 = "s\<lparr> inflight := filter (\<lambda>t. t_owner t \<noteq> p) (inflight s),
                 settled := settled s @ [(t, r)] \<rparr>"
  from Cons have "t \<in> set (filter (\<lambda>t. t_owner t = p) (inflight s))" by simp
  then have t: "t \<in> set (inflight s)" "t_owner t = p" by simp_all
  then have "inflight s \<noteq> []" by auto
  with bk obtain c where c: "client s = Some c" by (auto simp: bookkeeping_def)
  from bk t have ps: "p \<in> set (started s)" by (auto simp: bookkeeping_def)
  have s1: "bookkeeping ?s1"
    using bk by (auto simp add: bookkeeping_def started_def distinct_map_filter)
  have c1: "client ?s1 = Some c" "client ?s1 \<noteq> None" using c by simp_all
  have p1: "p \<in> set (started ?s1)" "p \<notin> t_owner ` set (inflight ?s1)"
    using ps by auto
  show ?thesis
  proof (cases r)
    case (Success raw)
    with Cons bookkeeping_format [OF s1 c1(2) p1] show ?thesis
      by (simp add: backend_settled_def Let_def)
  next
    case (Failure err cn)
    show ?thesis
    proof (cases "t_kind t")
      case PutOp
      with Failure Cons bookkeeping_settle [OF s1 c1(2) p1] show ?thesis
        by (simp add: backend_settled_def Let_def)
    next
      case MultipartOp
      from p1 t have "t_owner t \<in> set (started ?s1)" "t_owner t \<notin> t_owner ` set (inflight ?s1)"
        by simp_all
      from bookkeeping_multipart_failed [OF s1 c1(1) this, of e err cn]
      show ?thesis using MultipartOp Failure Cons
        by (simp add: backend_settled_def Let_def)
    qed
  qed
qed

lemma bookkeeping_step:
  "single_flight s \<Longrightarrow> bookkeeping s \<Longrightarrow> bookkeeping (step e s a)"
  by (cases a)
    (simp_all add: put_def multipartUpload_def bookkeeping_invoke
      bookkeeping_options_settled bookkeeping_tick bookkeeping_backend_settled)

lemma reachable_invariants:
  "single_flight s \<Longrightarrow> bookkeeping s \<Longrightarrow>
     single_flight (run e s acts) \<and> bookkeeping (run e s acts)"
  unfolding run_def
  by (induction acts arbitrary: s) (simp_all add: single_flight_step bookkeeping_step)


section \<open>Order of execution\<close>

lemma invoke_frame [simp]:
  "next_pid (invoke e k f d cfg s) = Suc (next_pid s)"
  "resubmits (invoke e k f d cfg s) = resubmits s"
  "settled (invoke e k f d cfg s) = settled s"
  by (simp_all add: invoke_def init_def getStore_def construct_client_def on_def Let_def
        split: option.splits sum.splits)

lemma invoke_no_client:
  assumes "client s = None"
  shows "executed (invoke e k f d cfg s) = executed s"
    and "backend_calls (invoke e k f d cfg s) = backend_calls s"
    and "drains (invoke e k f d cfg s) = drains s"
    and "inflight (invoke e k f d cfg s) = inflight s"
    and "opts (invoke e k f d cfg s) = opts s"
    and "promises (invoke e k f d cfg s) = promises s"
    and "retryQueue (invoke e k f d cfg s) = retryQueue s"
  using assms
  by (simp_all add: invoke_def init_def getStore_def construct_client_def on_def Let_def
        split: sum.splits)


lemma calls_in_order_initial: "calls_in_order (initial ops)"
  by (simp add: calls_in_order_def initial_def started_def)

lemma calls_in_order_emit:
  assumes "calls_in_order s" and "client s = Some c"
  shows "calls_in_order (emit e who s)"
proof -
  from emit_inflight [OF assms(2), of e who]
  have bc: "map fst (backend_calls (emit e who s))
      = map fst (backend_calls s) @ map t_owner (filter (sends s) (event s))" by blast
  from assms(1) have ex: "executed s = started s"
    and sb: "subseq (map fst (backend_calls s)) (executed s)"
    by (auto simp add: calls_in_order_def)
  have "subseq (map t_owner (filter (sends s) (event s))) (map t_owner (event s))"
    by (intro subseq_map subseq_filter_left)
  with sb have "subseq (map fst (backend_calls (emit e who s)))
      (executed s @ map t_owner (event s))"
    unfolding bc by (rule list_emb_append_mono)
  then show ?thesis by (simp add: calls_in_order_def ex)
qed

lemma calls_in_order_invoke:
  assumes "calls_in_order s"
  shows "calls_in_order (invoke e k f d cfg s)"
proof (cases "client s")
  case None
  have "started (invoke e k f d cfg s) = started s"
    by (simp add: started_def invoke_no_client [OF None])
  with assms show ?thesis
    by (auto simp add: calls_in_order_def invoke_no_client [OF None])
next
  case (Some c)
  have "calls_in_order (on t (s\<lparr>next_pid := n, uid := u\<rparr>))" for t n u
    using assms by (auto simp add: calls_in_order_def on_def started_def)
  moreover have "client (on t (s\<lparr>next_pid := n, uid := u\<rparr>)) = Some c" for t n u
    using Some by (simp add: on_def)
  ultimately show ?thesis
    using Some by (simp add: invoke_with_client calls_in_order_emit)
qed

lemma calls_in_order_fields [simp]:
  "calls_in_order (s\<lparr>retryQueue := rq\<rparr>) = calls_in_order s"
  "calls_in_order (s\<lparr>resubmits := rs\<rparr>) = calls_in_order s"
  "calls_in_order (s\<lparr>inflight := fl\<rparr>) = calls_in_order s"
  "calls_in_order (s\<lparr>settled := st\<rparr>) = calls_in_order s"
  "calls_in_order (s\<lparr>init_resume := ir\<rparr>) = calls_in_order s"
  "calls_in_order (settle p out s) = calls_in_order s"
  "calls_in_order (format_and_resolve e p raw s) = calls_in_order s"
  by (auto simp add: calls_in_order_def started_def)

lemma calls_in_order_step:
  assumes "single_flight s" and "calls_in_order s"
  shows "calls_in_order (step e s a)"
proof (cases a)
  case (OptionsSettle r)
  with assms(2) show ?thesis
    by (auto simp add: calls_in_order_def options_settled_def construct_client_def
          started_def Let_def split: list.splits sum.splits)
next
  case Tick
  show ?thesis
  proof (cases "init_resume s")
    case Nil
    with Tick assms(2) show ?thesis by (simp add: tick_def)
  next
    case (Cons who rest)
    with assms(1) obtain c where "client s = Some c" by (auto simp: single_flight_def)
    with Cons Tick assms(2) show ?thesis
      by (simp add: tick_def calls_in_order_emit)
  qed
next
  case (BackendSettle p r)
  with assms(2) show ?thesis
    by (simp add: backend_settled_def multipart_failed_def multipartUpload_def Let_def
          calls_in_order_invoke split: list.splits backend_result.splits kind.splits)
qed (simp_all add: put_def multipartUpload_def calls_in_order_invoke assms)

lemma calls_in_order_run:
  "single_flight s \<Longrightarrow> calls_in_order s \<Longrightarrow> calls_in_order (run e s acts)"
  unfolding run_def
  by (induction acts arbitrary: s) (simp_all add: single_flight_step calls_in_order_step)

section \<open>What is in flight can be sent again\<close>

lemma inflight_sendable_initial: "inflight_sendable (initial ops)"
  by (simp add: inflight_sendable_def initial_def)

lemma inflight_sendable_cong:
  assumes "inflight_sendable s" and "opts s' = opts s"
    and "set (inflight s') \<subseteq> set (inflight s)"
  shows "inflight_sendable s'"
  using assms sends_cong [OF assms(2)] by (auto simp add: inflight_sendable_def)

lemma inflight_sendable_emit:
  assumes "inflight_sendable s" and "client s = Some c"
  shows "inflight_sendable (emit e who s)"
proof -
  from emit_inflight [OF assms(2), of e who] obtain ts' where
    "inflight (emit e who s) = inflight s @ ts'" "\<forall>u\<in>set ts'. sends s u" by blast
  moreover have "sends (emit e who s) = sends s" by (rule ext, rule sends_cong) simp
  ultimately show ?thesis using assms(1) by (auto simp add: inflight_sendable_def)
qed

lemma inflight_sendable_invoke:
  assumes "inflight_sendable s"
  shows "inflight_sendable (invoke e k f d cfg s)"
proof (cases "client s")
  case None
  with assms show ?thesis
    by (intro inflight_sendable_cong [OF assms]) (simp_all add: invoke_no_client)
next
  case (Some c)
  have "inflight_sendable (on t (s\<lparr>next_pid := n, uid := u\<rparr>))" for t n u
    by (rule inflight_sendable_cong [OF assms]) (simp_all add: on_def)
  moreover have "client (on t (s\<lparr>next_pid := n, uid := u\<rparr>)) = Some c" for t n u
    using Some by (simp add: on_def)
  ultimately show ?thesis
    using Some by (simp add: invoke_with_client inflight_sendable_emit)
qed

lemma inflight_sendable_step:
  assumes sf: "single_flight s" and bk: "bookkeeping s" and sd: "inflight_sendable s"
  shows "inflight_sendable (step e s a)"
proof (cases a)
  case (OptionsSettle r)
  show ?thesis
  proof (cases "waiting_options s")
    case Nil
    with OptionsSettle sd show ?thesis by (simp add: options_settled_def)
  next
    case (Cons who rest)
    with sf have "client s = None" by (auto simp: single_flight_def)
    with bk have "inflight s = []" by (simp add: bookkeeping_def)
    with OptionsSettle Cons show ?thesis
      by (simp add: inflight_sendable_def options_settled_def construct_client_def Let_def
            split: sum.splits)
  qed
next
  case Tick
  show ?thesis
  proof (cases "init_resume s")
    case Nil
    with Tick sd show ?thesis by (simp add: tick_def)
  next
    case (Cons who rest)
    with sf obtain c where c: "client s = Some c" by (auto simp: single_flight_def)
    have "inflight_sendable (s\<lparr>init_resume := rest\<rparr>)"
      by (rule inflight_sendable_cong [OF sd]) simp_all
    with Cons Tick c show ?thesis by (simp add: tick_def inflight_sendable_emit)
  qed
next
  case (BackendSettle p r)
  have a: "inflight_sendable (s\<lparr>inflight := filter P (inflight s), settled := st\<rparr>)" for P st
    by (rule inflight_sendable_cong [OF sd]) simp_all
  have b: "inflight_sendable (s1\<lparr>retryQueue := rq\<rparr>)"
    "inflight_sendable (s1\<lparr>retryQueue := rq, resubmits := rs\<rparr>)"
    "inflight_sendable (settle q out s1)"
    "inflight_sendable (format_and_resolve e q raw s1)"
    if "inflight_sendable s1" for s1 rq rs q out raw
    by (rule inflight_sendable_cong [OF that]; simp)+
  show ?thesis
    unfolding BackendSettle step.simps backend_settled_def multipart_failed_def
      multipartUpload_def Let_def
    by (simp add: sd a b inflight_sendable_invoke
          split: list.splits backend_result.splits kind.splits)
qed (simp_all add: put_def multipartUpload_def inflight_sendable_invoke sd)

section \<open>Before and after the first drain\<close>

lemma drain_phase_initial: "drain_phase (initial ops)"
  by (simp add: drain_phase_def initial_def)

lemma drain_phase_emit: "drain_phase (emit e who s)"
  by (simp add: drain_phase_def)

lemma drain_phase_construct:
  assumes "client s = None" and "single_flight s" and "bookkeeping s"
    and "drains s' = drains s" "client s' = None"
    and "init_resume s' = init_resume s" "store_resolved s' = store_resolved s"
  shows "drain_phase (construct_client e who s')"
proof -
  from assms have "init_resume s' = []" "store_resolved s' = []" "drains s' = []"
    "client s' = None"
    by (simp_all add: single_flight_def bookkeeping_def)
  then show ?thesis
    by (simp add: drain_phase_def construct_client_def Let_def split: sum.splits)
qed

lemma drain_phase_invoke:
  assumes sf: "single_flight s" and bk: "bookkeeping s"
  shows "drain_phase (invoke e k f d cfg s)"
proof (cases "client s")
  case None
  let ?reg = "on \<lparr> t_key = uid s, t_kind = k, t_owner = next_pid s, t_filename = f,
                t_data = d, t_config = cfg \<rparr>
               (s\<lparr>next_pid := Suc (next_pid s), uid := Suc (uid s)\<rparr>)"
  from None bk have dr: "drains s = []" by (simp add: bookkeeping_def)
  have plain: "drain_phase s'" if "client s' = None" "drains s' = []" for s'
    using that by (simp add: drain_phase_def)
  have cons: "drain_phase (construct_client e (next_pid s) ?reg)"
    by (rule drain_phase_construct [OF None sf bk]) (simp_all add: on_def None dr)
  have inv: "invoke e k f d cfg s = getStore e (next_pid s) ?reg"
    using None by (simp add: invoke_def init_def Let_def on_def)
  have cr: "client ?reg = None" "drains ?reg = []" using None dr by (simp_all add: on_def)
  show ?thesis
    unfolding inv getStore_def Let_def using cr cons
    by (auto intro!: plain)
next
  case (Some c)
  then show ?thesis by (simp add: invoke_with_client drain_phase_emit)
qed

lemma drain_phase_step:
  assumes sf: "single_flight s" and bk: "bookkeeping s" and dp: "drain_phase s"
  shows "drain_phase (step e s a)"
proof (cases a)
  case (OptionsSettle r)
  show ?thesis
  proof (cases "waiting_options s")
    case Nil
    with OptionsSettle dp show ?thesis by (simp add: options_settled_def)
  next
    case (Cons who rest)
    with sf have c: "client s = None" by (auto simp: single_flight_def)
    show ?thesis
      unfolding OptionsSettle step.simps options_settled_def Cons list.case
      by (rule drain_phase_construct [OF c sf bk]) (simp_all add: c)
  qed
next
  case Tick
  with dp show ?thesis by (simp add: tick_def drain_phase_emit split: list.splits)
next
  case (BackendSettle p r)
  show ?thesis
  proof (cases "filter (\<lambda>t. t_owner t = p) (inflight s)")
    case Nil
    with BackendSettle dp show ?thesis by (simp add: backend_settled_def)
  next
    case (Cons t ts)
    then have "t \<in> set (filter (\<lambda>t. t_owner t = p) (inflight s))" by simp
    then have t: "t \<in> set (inflight s)" by simp
    with bk have "t_owner t \<in> set (started s)" by (auto simp: bookkeeping_def)
    then have dr: "drains s \<noteq> []" by (auto simp: started_def)
    with dp have ev: "event s = []" by (simp add: drain_phase_def)
    from t bk obtain c where c: "client s = Some c" by (auto simp: bookkeeping_def)
    have q1: "drain_phase s'" if "drains s' = drains s" "event s' = []" for s'
      using that dr by (simp add: drain_phase_def)
    have q2: "drain_phase (settle q out s')" if "drain_phase s'" for q out s'
      using that by (simp add: drain_phase_def)
    have inv: "drain_phase (invoke e k f d cfg s')" if "client s' = Some c" for k f d cfg s'
      using that by (simp add: invoke_with_client drain_phase_emit)
    show ?thesis
      unfolding BackendSettle step.simps backend_settled_def Cons list.case Let_def
        multipart_failed_def multipartUpload_def
      by (auto intro!: q2 inv q1 simp: ev c split: backend_result.splits kind.splits)
  qed
qed (simp_all add: put_def multipartUpload_def drain_phase_invoke sf bk)

section \<open>Resubmissions create calls\<close>

lemma resubmits_bounded_initial: "resubmits_bounded (initial ops)"
  by (simp add: resubmits_bounded_def initial_def)

lemma resubmits_bounded_invoke:
  "resubmits_bounded s \<Longrightarrow> resubmits_bounded (invoke e k f d cfg s)"
  by (auto simp add: resubmits_bounded_def)

lemma resubmits_bounded_multipart_failed:
  assumes "resubmits_bounded s"
  shows "resubmits_bounded (multipart_failed e t err cn s)"
proof (cases "client s \<noteq> None \<and> cn")
  case True
  with assms show ?thesis
    by (simp add: multipart_failed_cancelled resubmits_bounded_def)
next
  case False
  show ?thesis
  proof (cases "retries_made s (t_filename t) < retryCount (opts s)")
    case True
    from assms show ?thesis
      unfolding multipart_failed_retry [OF False True] multipartUpload_def
      by (auto simp add: resubmits_bounded_def)
  next
    case nolimit: False
    from assms show ?thesis
      unfolding multipart_failed_exhausted [OF False nolimit]
      by (simp add: resubmits_bounded_def)
  qed
qed

lemma resubmits_bounded_step:
  assumes "resubmits_bounded s"
  shows "resubmits_bounded (step e s a)"
proof (cases a)
  case (OptionsSettle r)
  with assms show ?thesis
    by (simp add: resubmits_bounded_def options_settled_def construct_client_def Let_def
          split: list.splits sum.splits)
next
  case Tick
  with assms show ?thesis by (simp add: resubmits_bounded_def tick_def split: list.splits)
next
  case (BackendSettle p r)
  have a: "resubmits_bounded (s\<lparr>inflight := fl, settled := st\<rparr>)" for fl st
    using assms by (simp add: resubmits_bounded_def)
  have b: "resubmits_bounded (settle q out s1)"
    "resubmits_bounded (format_and_resolve e q raw s1)"
    if "resubmits_bounded s1" for s1 q out raw
    using that by (simp_all add: resubmits_bounded_def)
  show ?thesis
    unfolding BackendSettle step.simps backend_settled_def Let_def
    by (simp add: assms a b resubmits_bounded_multipart_failed
          split: list.splits backend_result.splits kind.splits)
qed (simp_all add: put_def multipartUpload_def resubmits_bounded_invoke assms)

section \<open>Deferred calls and failed construction\<close>

lemma deferred_fields [simp]:
  "deferred p (s\<lparr>retryQueue := rq\<rparr>) = deferred p s"
  "deferred p (s\<lparr>resubmits := rs\<rparr>) = deferred p s"
  "deferred p (s\<lparr>inflight := fl\<rparr>) = deferred p s"
  "deferred p (s\<lparr>settled := st\<rparr>) = deferred p s"
  "deferred p (settle q out s) = deferred p s"
  "deferred p (format_and_resolve e q raw s) = deferred p s"
  by (simp_all add: deferred_def)

lemma deferred_invoke:
  "deferred p s \<Longrightarrow> deferred p (invoke e k f d cfg s)"
  by (auto simp add: deferred_def invoke_def init_def getStore_def construct_client_def
        on_def Let_def split: option.splits sum.splits)

lemma deferred_step:
  assumes "deferred p s"
  shows "deferred p (step e s a)"
proof (cases a)
  case (OptionsSettle r)
  with assms show ?thesis
    by (auto simp add: deferred_def options_settled_def construct_client_def Let_def
          split: list.splits sum.splits)
next
  case Tick
  with assms show ?thesis
    by (auto simp add: deferred_def tick_def split: list.splits)
next
  case (BackendSettle q r)
  with assms show ?thesis
    by (simp add: backend_settled_def multipart_failed_def multipartUpload_def Let_def
          deferred_invoke split: list.splits backend_result.splits kind.splits)
qed (simp_all add: put_def multipartUpload_def deferred_invoke assms)

lemma deferred_run:
  "deferred p s \<Longrightarrow> deferred p (run e s acts)"
  unfolding run_def by (induction acts arbitrary: s) (simp_all add: deferred_step)

lemma invoke_defers:
  assumes "client s = None" and "event s \<noteq> []"
  shows "invoke e k f d cfg s =
     on \<lparr> t_key = uid s, t_kind = k, t_owner = next_pid s, t_filename = f,
          t_data = d, t_config = cfg \<rparr>
        (s\<lparr>next_pid := Suc (next_pid s), uid := Suc (uid s)\<rparr>)"
proof -
  have "int (length (event s @ [t])) - 1 \<noteq> 0" for t
    using assms(2) by (cases "event s") simp_all
  with assms(1) show ?thesis
    by (simp add: invoke_def init_def getStore_def on_def Let_def)
qed

lemma quiet_queue_from:
  assumes "bookkeeping s" and "drain_phase s"
  shows "quiet_queue s"
proof -
  have "event s = []" if "inflight s \<noteq> []"
  proof -
    from that obtain t where "t \<in> set (inflight s)" by (cases "inflight s") auto
    with assms(1) have "t_owner t \<in> set (started s)" by (auto simp: bookkeeping_def)
    then have "drains s \<noteq> []" by (auto simp: started_def)
    with assms(2) show ?thesis by (simp add: drain_phase_def)
  qed
  then show ?thesis by (simp add: quiet_queue_def)
qed

lemma invariants_run:
  assumes "single_flight s" "bookkeeping s" "calls_in_order s" "inflight_sendable s"
    "drain_phase s" "resubmits_bounded s"
  shows "single_flight (run e s acts) \<and> bookkeeping (run e s acts)
     \<and> calls_in_order (run e s acts) \<and> inflight_sendable (run e s acts)
     \<and> drain_phase (run e s acts) \<and> resubmits_bounded (run e s acts)"
  using assms unfolding run_def
proof (induction acts arbitrary: s)
  case Nil
  then show ?case by simp
next
  case (Cons a acts)
  show ?case
    unfolding foldl_Cons
    by (rule Cons.IH)
       (simp_all add: Cons.prems single_flight_step bookkeeping_step calls_in_order_step
          inflight_sendable_step drain_phase_step resubmits_bounded_step)
qed

lemma reachable:
  "single_flight (run e (initial ops) acts)"
  "bookkeeping (run e (initial ops) acts)"
  "calls_in_order (run e (initial ops) acts)"
  "inflight_sendable (run e (initial ops) acts)"
  "drain_phase (run e (initial ops) acts)"
  "resubmits_bounded (run e (initial ops) acts)"
  using invariants_run [OF single_flight_initial bookkeeping_initial calls_in_order_initial
      inflight_sendable_initial drain_phase_initial resubmits_bounded_initial,
      where e = e and acts = acts and ops1 = ops]
  by blast+

lemma reachable_quiet: "quiet_queue (run e (initial ops) acts)"
  by (rule quiet_queue_from [OF reachable(2) reachable(5)])

lemma run_append: "run e s (xs @ ys) = run e (run e s xs) ys"
  by (simp add: run_def)

lemma stuck_step:
  assumes sf: "single_flight s" and bk: "bookkeeping s"
    and dead: "client s = None" "constructed s \<noteq> []"
  shows "client (step e s a) = None \<and> constructed (step e s a) = constructed s
     \<and> options_calls (step e s a) = options_calls s"
proof -
  from sf dead have w: "waiting_options s = []" "init_resume s = []" "event s \<noteq> []"
    by (cases "constructed s"; auto simp: single_flight_def)+
  from bk dead have fl: "inflight s = []" by (simp add: bookkeeping_def)
  show ?thesis
  proof (cases a)
    case (CallPut f d cfg)
    with dead w show ?thesis by (simp add: put_def invoke_defers on_def)
  next
    case (CallMultipart f d cfg)
    with dead w show ?thesis by (simp add: multipartUpload_def invoke_defers on_def)
  next
    case (OptionsSettle r)
    with dead w show ?thesis by (simp add: options_settled_def)
  next
    case Tick
    with dead w show ?thesis by (simp add: tick_def)
  next
    case (BackendSettle p r)
    with dead fl show ?thesis by (simp add: backend_settled_def)
  qed
qed

lemma stuck_run:
  assumes "single_flight s" and "bookkeeping s"
    and "client s = None" "constructed s \<noteq> []"
  shows "client (run e s acts) = None \<and> constructed (run e s acts) = constructed s
     \<and> options_calls (run e s acts) = options_calls s"
  using assms
proof (induction acts arbitrary: s)
  case Nil
  then show ?case by (simp add: run_def)
next
  case (Cons a acts)
  from stuck_step [OF Cons.prems, of e a]
  have k: "client (step e s a) = None" "constructed (step e s a) = constructed s"
    "options_calls (step e s a) = options_calls s"
    by simp_all
  then have "constructed (step e s a) \<noteq> []" using Cons.prems by simp
  from Cons.IH [OF single_flight_step [OF Cons.prems(1)]
      bookkeeping_step [OF Cons.prems(1,2)] k(1) this] k
  show ?case by (simp add: run_def)
qed

text \<open>Once a construction was attempted, neither it nor \<^verbatim>\<open>getOptions\<close> runs again.\<close>

lemma attempted_once:
  assumes "single_flight s" and "bookkeeping s" and "constructed s \<noteq> []"
  shows "constructed (run e s acts) = constructed s
     \<and> options_calls (run e s acts) = options_calls s"
proof (cases "client s")
  case None
  from stuck_run [OF assms(1,2) None assms(3), of e acts] show ?thesis by simp
next
  case (Some c)
  from run_keeps_client [OF assms(1) Some, of e acts] show ?thesis by simp
qed

section \<open>Options and configuration\<close>

lemma construct_client_frame [simp]:
  "opts (construct_client e who s) = opts s"
  "promises (construct_client e who s) = promises s"
  "options_calls (construct_client e who s) = options_calls s"
  "waiting_options (construct_client e who s) = waiting_options s"
  "event (construct_client e who s) = event s"
  "constructed (construct_client e who s) = constructed s @ [oss_options.truncate (opts s)]"
  by (simp_all add: construct_client_def Let_def split: sum.splits)





section \<open>Tasks in flight and settled promises\<close>

lemma filter_owner_single:
  "distinct (map f xs) \<Longrightarrow> x \<in> set xs \<Longrightarrow> filter (\<lambda>u. f u = f x) xs = [x]"
proof (induction xs)
  case Nil
  then show ?case by simp
next
  case (Cons y ys)
  show ?case
  proof (cases "y = x")
    case True
    with Cons.prems have "f x \<notin> f ` set ys" by simp
    then have "\<forall>u\<in>set ys. f u \<noteq> f x" by (metis imageI)
    then have "filter (\<lambda>u. f u = f x) ys = []" by (simp add: filter_empty_conv)
    with True show ?thesis by simp
  next
    case False
    with Cons.prems have "x \<in> set ys" "f y \<noteq> f x" by auto
    with Cons show ?thesis by simp
  qed
qed

lemma inflight_facts:
  assumes bk: "bookkeeping s" and t: "t \<in> set (inflight s)"
  shows "filter (\<lambda>u. t_owner u = t_owner t) (inflight s) = [t]"
    and "client s \<noteq> None"
    and "promises s (t_owner t) = None"
    and "t_owner t < next_pid s"
    and "promises s (next_pid s) = None"
proof -
  from bk have d: "distinct (map t_owner (inflight s))" by (simp add: bookkeeping_def)
  show "filter (\<lambda>u. t_owner u = t_owner t) (inflight s) = [t]"
    by (rule filter_owner_single [OF d t])
  from t have "inflight s \<noteq> []" by auto
  with bk show "client s \<noteq> None" by (auto simp: bookkeeping_def)
  from bk t show "promises s (t_owner t) = None" by (simp add: bookkeeping_def)
  from bk have fifo: "started s @ map t_owner (event s) = [0..<next_pid s]"
    and sub: "set (map t_owner (inflight s)) \<subseteq> set (started s)"
    and pr: "\<And>p. promises s p \<noteq> None \<Longrightarrow> p \<in> set (started s)"
    by (simp_all add: bookkeeping_def)
  have "set (started s) \<subseteq> set (started s @ map t_owner (event s))" by simp
  also have "\<dots> = {..<next_pid s}" by (simp only: fifo) auto
  finally have lt: "set (started s) \<subseteq> {..<next_pid s}" .
  with sub t show "t_owner t < next_pid s" by auto
  show "promises s (next_pid s) = None"
  proof (rule ccontr)
    assume "promises s (next_pid s) \<noteq> None"
    from pr [OF this] lt show False by auto
  qed
qed

lemma settle_keeps_promise:
  "promises s p = Some out \<Longrightarrow> promises (settle q out' s) p = Some out"
  by (auto simp add: settle_promises)

lemma run_task_keeps_promise:
  assumes "promises s p = Some out"
  shows "promises (run_task e s t) p = Some out"
proof (cases "client s")
  case None
  have "promises (s1\<lparr>retryQueue := rq\<rparr>) p = Some out"
    "promises (s1\<lparr>uid := u\<rparr>) p = Some out"
    "promises (s1\<lparr>executed := ex\<rparr>) p = Some out"
    "promises (s1\<lparr>uid := u, retryQueue := rq\<rparr>) p = Some out"
    "promises (s1\<lparr>executed := ex, uid := u\<rparr>) p = Some out"
    "promises (s1\<lparr>executed := ex, retryQueue := rq\<rparr>) p = Some out"
    "promises (s1\<lparr>executed := ex, uid := u, retryQueue := rq\<rparr>) p = Some out"
    if "promises s1 p = Some out" for s1 rq u ex
    using that by simp_all
  with None assms show ?thesis
    by (simp add: run_task_def put_task_def multipart_task_def Let_def
          settle_keeps_promise split: kind.splits sum.splits)
next
  case (Some c)
  with assms show ?thesis by (simp add: run_task_promises)
qed

lemma foldl_run_task_keeps_promise:
  "promises s p = Some out \<Longrightarrow> promises (foldl (run_task e) s ts) p = Some out"
  by (induction ts arbitrary: s) (simp_all add: run_task_keeps_promise)

lemma emit_keeps_promise:
  "promises s p = Some out \<Longrightarrow> promises (emit e who s) p = Some out"
  by (simp add: emit_def Let_def foldl_run_task_keeps_promise)

lemma invoke_keeps_promise:
  assumes "promises s p = Some out"
  shows "promises (invoke e k f d cfg s) p = Some out"
proof (cases "client s")
  case None
  with assms show ?thesis
    by (simp add: invoke_def init_def getStore_def on_def Let_def)
next
  case (Some c)
  with assms show ?thesis
    by (simp add: invoke_with_client emit_keeps_promise on_def)
qed

lemma multipart_failed_keeps_promise:
  assumes "promises s p = Some out"
  shows "promises (multipart_failed e t err cn s) p = Some out"
proof -
  have a: "promises (s\<lparr>retryQueue := rq\<rparr>) p = Some out" for rq
    using assms by simp
  have b: "promises (s\<lparr>retryQueue := rq, resubmits := rs\<rparr>) p = Some out" for rq rs
    using assms by simp
  show ?thesis
    unfolding multipart_failed_def Let_def multipartUpload_def
    by (simp add: settle_keeps_promise invoke_keeps_promise a b assms)
qed

lemma backend_settled_keeps_promise:
  assumes "promises s p = Some out"
  shows "promises (backend_settled e q r s) p = Some out"
proof -
  have a: "promises (s\<lparr>inflight := fl, settled := st\<rparr>) p = Some out" for fl st
    using assms by simp
  show ?thesis
    unfolding backend_settled_def Let_def format_and_resolve_def
    by (simp add: settle_keeps_promise multipart_failed_keeps_promise a assms
          split: list.splits backend_result.splits kind.splits sum.splits)
qed

lemma step_keeps_promise:
  assumes "promises s p = Some out"
  shows "promises (step e s a) p = Some out"
proof (cases a)
  case (OptionsSettle r)
  with assms show ?thesis by (simp add: options_settled_def split: list.splits)
next
  case Tick
  with assms show ?thesis by (simp add: tick_def emit_keeps_promise split: list.splits)
qed (simp_all add: put_def multipartUpload_def invoke_keeps_promise
       backend_settled_keeps_promise assms)

lemma run_keeps_promise:
  "promises s p = Some out \<Longrightarrow> promises (run e s acts) p = Some out"
  unfolding run_def by (induction acts arbitrary: s) (simp_all add: step_keeps_promise)

section \<open>Resubmissions\<close>

lemma retry_flag_survives_merge:
  "truthy (getprop (merged_config s (assign ''__isRetry'' (JBool True) cfg)) ''__isRetry'')"
  by (simp add: merged_config_def getprop_def map_of_deepMerge map_of_assign)

lemma sends_rename_value:
  "sends s t \<Longrightarrow>
     rename_of s (merged_config s (t_config t))
       = Inr (if map_of (merged_config s (t_config t)) ''rename'' \<noteq> None
              then getprop (merged_config s (t_config t)) ''rename''
              else JBool (rename (opts s)))"
  by (simp add: sends_def method_shadowed_def rename_of_def hasOwnProperty_def)

lemma multipart_task_retry:
  assumes "client s = Some c" and "sends s t"
    and "truthy (getprop (merged_config s (t_config t)) ''__isRetry'')"
  shows "multipart_task e t s =
     s\<lparr> executed := executed s @ [t_owner t],
         backend_calls := backend_calls s @
            [(t_owner t, MultipartOp, t_filename t, t_data t, merged_config s (t_config t))],
         inflight := inflight s @ [t\<lparr>t_config := merged_config s (t_config t)\<rparr>] \<rparr>"
  using assms by (simp add: multipart_task_def Let_def sends_rename_value)

lemma multipart_task_fresh:
  assumes "client s = Some c" and "sends s t"
    and "\<not> truthy (getprop (merged_config s (t_config t)) ''__isRetry'')"
  shows "multipart_task e t s =
     (let m = merged_config s (t_config t);
          gen = \<not> truthy (getprop m ''checkpoint'');
          path = (if gen
                  then generateFilename e (t_filename t)
                         (if map_of m ''rename'' \<noteq> None then getprop m ''rename''
                          else JBool (rename (opts s)))
                         (rootPath (opts s)) (uid s)
                  else t_filename t)
      in s\<lparr> executed := executed s @ [t_owner t],
            uid := (if gen then Suc (uid s) else uid s),
            retryQueue := (retryQueue s)(path := None),
            backend_calls := backend_calls s @ [(t_owner t, MultipartOp, path, t_data t, m)],
            inflight := inflight s @ [t\<lparr>t_filename := path, t_config := m\<rparr>] \<rparr>)"
  using assms by (simp add: multipart_task_def Let_def sends_rename_value)


lemma emit_single:
  "event s = [t] \<Longrightarrow>
     emit e who s = (run_task e s t)\<lparr>event := [], drains := drains s @ [(who, [t_owner t])]\<rparr>"
  by (simp add: emit_def Let_def)

lemma invoke_idle:
  assumes "client s = Some c" and "event s = []"
  shows "invoke e k f d cfg s =
     (run_task e
        (s\<lparr> next_pid := Suc (next_pid s), uid := Suc (uid s),
             event := [\<lparr> t_key = uid s, t_kind = k, t_owner = next_pid s, t_filename = f,
                         t_data = d, t_config = cfg \<rparr>] \<rparr>)
        \<lparr> t_key = uid s, t_kind = k, t_owner = next_pid s, t_filename = f,
          t_data = d, t_config = cfg \<rparr>)
     \<lparr> event := [], drains := drains s @ [(next_pid s, [next_pid s])] \<rparr>"
  using assms by (simp add: invoke_with_client on_def emit_single)


lemma backend_settled_found:
  assumes bk: "bookkeeping s" and t: "t \<in> set (inflight s)"
  shows "backend_settled e (t_owner t) r s =
     (let s1 = s\<lparr> inflight := filter (\<lambda>u. t_owner u \<noteq> t_owner t) (inflight s),
                  settled := settled s @ [(t, r)] \<rparr>
      in case r of
           Success raw \<Rightarrow> format_and_resolve e (t_owner t) raw s1
         | Failure err cancelled \<Rightarrow>
             (case t_kind t of
                PutOp \<Rightarrow> settle (t_owner t) (Rejected err) s1
              | MultipartOp \<Rightarrow> multipart_failed e t err cancelled s1))"
  using inflight_facts(1) [OF bk t] by (simp add: backend_settled_def Let_def)


text \<open>
  The resubmission after a failure below the limit, in a reachable state: the queue
  is empty, so the new call runs its own listener at once, and that listener reaches
  the backend because the failed attempt did.
\<close>

lemma resubmission_state:
  assumes bk: "bookkeeping s" and qq: "quiet_queue s" and sd: "inflight_sendable s"
    and t: "t \<in> set (inflight s)" "t_kind t = MultipartOp"
    and lt: "retries_made s (t_filename t) < retryCount (opts s)"
  shows "backend_settled e (t_owner t) (Failure err False) s =
     settle (t_owner t) (Rejected err)
       (s\<lparr> settled := settled s @ [(t, Failure err False)],
            retryQueue := (retryQueue s)
              (t_filename t \<mapsto> retries_made s (t_filename t) + 1),
            resubmits := resubmits s @ [(t_filename t, next_pid s)],
            next_pid := Suc (next_pid s), uid := Suc (uid s),
            executed := executed s @ [next_pid s],
            backend_calls := backend_calls s @
              [(next_pid s, MultipartOp, t_filename t, t_data t,
                merged_config s (assign ''__isRetry'' (JBool True) (t_config t)))],
            inflight := filter (\<lambda>u. t_owner u \<noteq> t_owner t) (inflight s) @
                [\<lparr> t_key = uid s, t_kind = MultipartOp, t_owner = next_pid s,
                   t_filename = t_filename t, t_data = t_data t,
                   t_config = merged_config s
                     (assign ''__isRetry'' (JBool True) (t_config t)) \<rparr>],
            event := [], drains := drains s @ [(next_pid s, [next_pid s])] \<rparr>)"
proof -
  note f = inflight_facts [OF bk t(1)]
  from f(2) obtain c where c: "client s = Some c" by auto
  from t(1) qq have ev: "event s = []" by (auto simp: quiet_queue_def)
  let ?p = "t_owner t"
  let ?s1 = "s\<lparr> inflight := filter (\<lambda>u. t_owner u \<noteq> ?p) (inflight s),
                 settled := settled s @ [(t, Failure err False)] \<rparr>"
  let ?cfg = "assign ''__isRetry'' (JBool True) (t_config t)"
  let ?s2 = "?s1\<lparr> retryQueue := (retryQueue ?s1)
                   (t_filename t \<mapsto> retries_made ?s1 (t_filename t) + 1),
                 resubmits := resubmits ?s1 @ [(t_filename t, next_pid ?s1)] \<rparr>"
  let ?t' = "\<lparr> t_key = uid ?s2, t_kind = MultipartOp, t_owner = next_pid ?s2,
               t_filename = t_filename t, t_data = t_data t, t_config = ?cfg \<rparr>"
  let ?s3 = "?s2\<lparr> next_pid := Suc (next_pid ?s2), uid := Suc (uid ?s2), event := [?t'] \<rparr>"
  let ?r = "backend_settled e ?p (Failure err False) s"
  have r1: "retries_made ?s1 (t_filename t) < retryCount (opts ?s1)"
    using lt by (simp add: retries_made_def)
  have mf: "multipart_failed e t err False ?s1
      = settle ?p (Rejected err) (multipartUpload e (t_filename t) (t_data t) ?cfg ?s2)"
    by (rule multipart_failed_retry [OF _ r1]) simp
  have c2: "client ?s2 = Some c" "event ?s2 = []" using c ev by simp_all
  have c3: "client ?s3 = Some c" using c by simp
  have flag: "truthy (getprop (merged_config ?s3 (t_config ?t')) ''__isRetry'')"
    using retry_flag_survives_merge [of ?s3 "t_config t"] by simp
  from sd t(1) have "sends s t" by (simp add: inflight_sendable_def)
  then have snd: "sends ?s3 ?t'"
    by (auto simp add: sends_def method_shadowed_def merged_config_def deepMerge_key_absent
          map_of_assign)
  have inv: "invoke e MultipartOp (t_filename t) (t_data t) ?cfg ?s2
      = (multipart_task e ?t' ?s3)\<lparr> event := [],
            drains := drains ?s2 @ [(next_pid ?s2, [next_pid ?s2])] \<rparr>"
    using invoke_idle [OF c2, of e MultipartOp "t_filename t" "t_data t" ?cfg]
    by (simp add: run_task_def)
  have r: "?r = settle ?p (Rejected err)
      ((multipart_task e ?t' ?s3)\<lparr> event := [],
            drains := drains ?s2 @ [(next_pid ?s2, [next_pid ?s2])] \<rparr>)"
    using t(2) mf inv
    by (simp add: backend_settled_found [OF bk t(1)] Let_def multipartUpload_def)
  show ?thesis
    unfolding r multipart_task_retry [OF c3 snd flag]
    by (simp add: merged_config_def retries_made_def)
qed




section \<open>Evaluation\<close>

text \<open>The definitions a concrete run unfolds.\<close>

lemmas exec_defs = run_def put_def multipartUpload_def invoke_def init_def getStore_def
  construct_client_def on_def emit_def run_task_def put_task_def multipart_task_def
  merged_config_def rename_of_def hasOwnProperty_def getprop_def settle_def
  options_settled_def tick_def backend_settled_def multipart_failed_def
  format_and_resolve_def initial_def oss_options.truncate_def merge_options_def
  override_def started_def retries_made_def Let_def

section \<open>The claims\<close>

text \<open>
  C1. Whatever puts and multipart uploads are issued, and however their
  continuations interleave, \<^verbatim>\<open>new OSS\<close> is invoked at most once and so is
  \<^verbatim>\<open>getOptions\<close>; once a client is cached every later step keeps that client and runs
  neither again; and \<^verbatim>\<open>getStore\<close> invokes \<^verbatim>\<open>getOptions\<close>, waits for it or reaches
  the constructor only without a client and with exactly one task in the queue.
\<close>

theorem single_client_construction:
  "(let s = run e (initial ops) acts; s' = run e s later in
      length (constructed s) \<le> 1 \<and> options_calls s \<le> 1
    \<and> (client s = Some c \<longrightarrow>
          client s' = Some c \<and> constructed s' = constructed s
        \<and> options_calls s' = options_calls s))
   \<and> (\<forall>st who.
          constructed (getStore e who st) \<noteq> constructed st
        \<or> waiting_options (getStore e who st) \<noteq> waiting_options st
        \<or> options_calls (getStore e who st) \<noteq> options_calls st \<longrightarrow>
          client st = None \<and> length (event st) = 1)"
proof -
  have sf: "single_flight (run e (initial ops) acts)"
    by (rule single_flight_run [OF single_flight_initial])
  then have "length (constructed (run e (initial ops) acts)) \<le> 1"
    "options_calls (run e (initial ops) acts) \<le> 1"
    by (simp_all add: single_flight_def)
  with run_keeps_client [OF sf] getStore_constructs show ?thesis
    by (simp add: Let_def)
qed

theorem single_client_construction_witness:
  "client (run example_env (initial async_options)
     [CallPut ''a.jpg'' ''A'' [], CallMultipart ''b.bin'' ''B'' [],
      OptionsSettle (Fulfilled None), Tick]) = Some 1
   \<and> client (run example_env
       (run example_env (initial async_options)
          [CallPut ''a.jpg'' ''A'' [], CallMultipart ''b.bin'' ''B'' [],
           OptionsSettle (Fulfilled None), Tick])
       [CallPut ''c.png'' ''C'' []]) = Some 1
   \<and> length (constructed (run example_env
       (run example_env (initial async_options)
          [CallPut ''a.jpg'' ''A'' [], CallMultipart ''b.bin'' ''B'' [],
           OptionsSettle (Fulfilled None), Tick])
       [CallPut ''c.png'' ''C'' []])) = 1
   \<and> constructed (getStore example_env 0
         (on \<lparr> t_key = 0, t_kind = PutOp, t_owner = 0, t_filename = ''a.jpg'',
                t_data = ''A'', t_config = [] \<rparr> (initial example_options)))
       \<noteq> constructed
         (on \<lparr> t_key = 0, t_kind = PutOp, t_owner = 0, t_filename = ''a.jpg'',
                t_data = ''A'', t_config = [] \<rparr> (initial example_options))
   \<and> length (event
         (on \<lparr> t_key = 0, t_kind = PutOp, t_owner = 0, t_filename = ''a.jpg'',
                t_data = ''A'', t_config = [] \<rparr> (initial example_options))) = 1"
  using single_client_construction [of example_env async_options
      "[CallPut ''a.jpg'' ''A'' [], CallMultipart ''b.bin'' ''B'' [],
        OptionsSettle (Fulfilled None), Tick]"
      "[CallPut ''c.png'' ''C'' []]" 1]
  by (simp add: exec_defs example_env_def example_options_def async_options_def)

text \<open>
  C2. The listeners are entered in the order of their registration: in every
  reachable state the owners of the listeners entered so far, followed by the owners
  of the tasks still queued, are the calls \<open>0, 1, 2, ...\<close> in the order they arrived,
  so no task is executed twice, skipped or overtaken. The drains took them in that
  order, and the backend calls made so far belong, in the same order, to listeners
  entered (a listener whose merged config has an own key \<^verbatim>\<open>hasOwnProperty\<close> throws
  before its backend call and only rejects its promise). One \<^verbatim>\<open>emit\<close> enters the
  listeners of exactly the queued tasks, in queue order, and leaves the queue empty;
  with a client it calls the backend for those of them that do not throw, in queue
  order.
\<close>

theorem drain_is_fifo:
  "(let s = run e (initial ops) acts in
      executed s @ map t_owner (event s) = [0..<next_pid s]
    \<and> executed s = concat (map snd (drains s))
    \<and> subseq (map fst (backend_calls s)) (executed s))
   \<and> executed (emit e who st) = executed st @ map t_owner (event st)
   \<and> drains (emit e who st) = drains st @ [(who, map t_owner (event st))]
   \<and> event (emit e who st) = []
   \<and> (client st \<noteq> None \<longrightarrow>
        map fst (backend_calls (emit e who st))
          = map fst (backend_calls st) @ map t_owner (filter (sends st) (event st)))
   \<and> (client st \<noteq> None \<and> \<not> sends st t \<longrightarrow>
        backend_calls (run_task e st t) = backend_calls st
      \<and> promises (run_task e st t)
          = promises (settle (t_owner t) (Rejected TypeError) st))"
proof -
  let ?s = "run e (initial ops) acts"
  from reachable(3) [of e ops acts]
  have "executed ?s = started ?s" "subseq (map fst (backend_calls ?s)) (executed ?s)"
    by (auto simp add: calls_in_order_def)
  moreover from reachable(2) [of e ops acts]
  have "started ?s @ map t_owner (event ?s) = [0..<next_pid ?s]"
    by (simp add: bookkeeping_def)
  moreover have "map fst (backend_calls (emit e who st))
          = map fst (backend_calls st) @ map t_owner (filter (sends st) (event st))"
    if "client st \<noteq> None"
    using that emit_inflight [of st _ e who] by auto
  moreover have "backend_calls (run_task e st t) = backend_calls st
      \<and> promises (run_task e st t) = promises (settle (t_owner t) (Rejected TypeError) st)"
    if "\<not> sends st t"
    using that by (simp add: run_task_thrown settle_def split: option.splits)
  ultimately show ?thesis by (simp add: Let_def started_def)
qed

theorem drain_is_fifo_witness:
  "executed (run example_env (initial async_options)
       ([CallPut ''a.jpg'' ''A'' [],
         CallMultipart ''b.bin'' ''B'' [(''hasOwnProperty'', JBool True)],
         CallPut ''c.png'' ''C'' [], OptionsSettle (Fulfilled None)] @ [Tick])) = [0, 1, 2]
   \<and> map fst (backend_calls (run example_env (initial async_options)
       ([CallPut ''a.jpg'' ''A'' [],
         CallMultipart ''b.bin'' ''B'' [(''hasOwnProperty'', JBool True)],
         CallPut ''c.png'' ''C'' [], OptionsSettle (Fulfilled None)] @ [Tick]))) = [0, 2]
   \<and> promises (run example_env (initial async_options)
       ([CallPut ''a.jpg'' ''A'' [],
         CallMultipart ''b.bin'' ''B'' [(''hasOwnProperty'', JBool True)],
         CallPut ''c.png'' ''C'' [], OptionsSettle (Fulfilled None)] @ [Tick])) 1
       = Some (Rejected TypeError)
   \<and> client (run example_env (initial async_options)
       [CallPut ''a.jpg'' ''A'' [],
        CallMultipart ''b.bin'' ''B'' [(''hasOwnProperty'', JBool True)],
        CallPut ''c.png'' ''C'' [], OptionsSettle (Fulfilled None)]) \<noteq> None
   \<and> map t_owner (event (run example_env (initial async_options)
       [CallPut ''a.jpg'' ''A'' [],
        CallMultipart ''b.bin'' ''B'' [(''hasOwnProperty'', JBool True)],
        CallPut ''c.png'' ''C'' [], OptionsSettle (Fulfilled None)])) = [0, 1, 2]
   \<and> map t_owner (filter (sends (run example_env (initial async_options)
       [CallPut ''a.jpg'' ''A'' [],
        CallMultipart ''b.bin'' ''B'' [(''hasOwnProperty'', JBool True)],
        CallPut ''c.png'' ''C'' [], OptionsSettle (Fulfilled None)]))
       (event (run example_env (initial async_options)
       [CallPut ''a.jpg'' ''A'' [],
        CallMultipart ''b.bin'' ''B'' [(''hasOwnProperty'', JBool True)],
        CallPut ''c.png'' ''C'' [], OptionsSettle (Fulfilled None)]))) = [0, 2]
   \<and> executed (emit example_env 0
       (run example_env (initial async_options)
       [CallPut ''a.jpg'' ''A'' [],
        CallMultipart ''b.bin'' ''B'' [(''hasOwnProperty'', JBool True)],
        CallPut ''c.png'' ''C'' [], OptionsSettle (Fulfilled None)])) = [0, 1, 2]
   \<and> event (emit example_env 0
       (run example_env (initial async_options)
       [CallPut ''a.jpg'' ''A'' [],
        CallMultipart ''b.bin'' ''B'' [(''hasOwnProperty'', JBool True)],
        CallPut ''c.png'' ''C'' [], OptionsSettle (Fulfilled None)])) = []"
  using drain_is_fifo [of example_env async_options
      "[CallPut ''a.jpg'' ''A'' [],
        CallMultipart ''b.bin'' ''B'' [(''hasOwnProperty'', JBool True)],
        CallPut ''c.png'' ''C'' [], OptionsSettle (Fulfilled None)] @ [Tick]"
      0
      "run example_env (initial async_options)
       [CallPut ''a.jpg'' ''A'' [],
        CallMultipart ''b.bin'' ''B'' [(''hasOwnProperty'', JBool True)],
        CallPut ''c.png'' ''C'' [], OptionsSettle (Fulfilled None)]"]
  by (simp add: exec_defs sends_def method_shadowed_def example_env_def async_options_def
        example_options_def)

text \<open>
  C4. In every reachable state, when the backend promise of a multipart task in flight
  is rejected without cancellation and its retry counter is below \<^verbatim>\<open>retryCount\<close>, the
  promise of that call is rejected with the triggering error, and the resubmission
  is a call of its own: it is recorded for the same key under a new promise, which is
  in flight and pending. Whatever happens afterwards, to the resubmission or
  otherwise, the original promise stays rejected with the triggering error.
\<close>

theorem retry_is_fire_and_forget:
  assumes "t \<in> set (inflight (run e (initial ops) acts))" and "t_kind t = MultipartOp"
    and "retries_made (run e (initial ops) acts) (t_filename t)
           < retryCount (opts (run e (initial ops) acts))"
  shows "(let s = run e (initial ops) acts;
            s' = backend_settled e (t_owner t) (Failure err False) s in
          promises s' (t_owner t) = Some (Rejected err)
        \<and> resubmits s' = resubmits s @ [(t_filename t, next_pid s)]
        \<and> next_pid s \<noteq> t_owner t
        \<and> next_pid s \<in> t_owner ` set (inflight s')
        \<and> promises s' (next_pid s) = None
        \<and> (\<forall>later. promises (run e s' later) (t_owner t) = Some (Rejected err)))"
proof -
  let ?s = "run e (initial ops) acts"
  let ?s' = "backend_settled e (t_owner t) (Failure err False) ?s"
  note f = inflight_facts [OF reachable(2) assms(1)]
  note rs = resubmission_state [OF reachable(2) reachable_quiet reachable(4) assms, of e err]
  have 1: "promises ?s' (t_owner t) = Some (Rejected err)"
    unfolding rs using f(3) by (simp add: settle_promises)
  have 2: "resubmits ?s' = resubmits ?s @ [(t_filename t, next_pid ?s)]"
    unfolding rs by simp
  have 3: "next_pid ?s \<noteq> t_owner t" using f(4) by simp
  have 4: "next_pid ?s \<in> t_owner ` set (inflight ?s')"
    unfolding rs by simp
  have 5: "promises ?s' (next_pid ?s) = None"
    unfolding rs using f(5) 3 by (simp add: settle_promises)
  have 6: "promises (run e ?s' later) (t_owner t) = Some (Rejected err)" for later
    by (rule run_keeps_promise [OF 1])
  from 1 2 3 4 5 6 show ?thesis by (simp add: Let_def)
qed

theorem retry_is_fire_and_forget_witness:
  "inflight (run example_env (initial example_options)
        [CallMultipart ''big.bin'' ''B'' [], Tick])
     = [\<lparr> t_key = 0, t_kind = MultipartOp, t_owner = 0, t_filename = ''media/big.bin'',
        t_data = ''B'',
        t_config = [(''headers'', JObj [(''Cache-Control'', JStr ''public'')]),
                    (''timeout'', JNum 60)] \<rparr>]
   \<and> retries_made (run example_env (initial example_options)
        [CallMultipart ''big.bin'' ''B'' [], Tick]) ''media/big.bin''
     < retryCount (opts (run example_env (initial example_options)
        [CallMultipart ''big.bin'' ''B'' [], Tick]))
   \<and> promises (backend_settled example_env 0 (Failure (Thrown ''net'') False)
        (run example_env (initial example_options)
        [CallMultipart ''big.bin'' ''B'' [], Tick])) 0
     = Some (Rejected (Thrown ''net''))
   \<and> resubmits (backend_settled example_env 0 (Failure (Thrown ''net'') False)
        (run example_env (initial example_options)
        [CallMultipart ''big.bin'' ''B'' [], Tick]))
     = [(''media/big.bin'', 1)]
   \<and> promises (run example_env
        (backend_settled example_env 0 (Failure (Thrown ''net'') False)
        (run example_env (initial example_options)
        [CallMultipart ''big.bin'' ''B'' [], Tick]))
        [BackendSettle 1 (Success (JStr ''done''))]) 0
     = Some (Rejected (Thrown ''net''))
   \<and> promises (run example_env
        (backend_settled example_env 0 (Failure (Thrown ''net'') False)
        (run example_env (initial example_options)
        [CallMultipart ''big.bin'' ''B'' [], Tick]))
        [BackendSettle 1 (Success (JStr ''done''))]) 1
     = Some (Resolved (JStr ''done''))"
  using retry_is_fire_and_forget [of
      "\<lparr> t_key = 0, t_kind = MultipartOp, t_owner = 0, t_filename = ''media/big.bin'',
        t_data = ''B'',
        t_config = [(''headers'', JObj [(''Cache-Control'', JStr ''public'')]),
                    (''timeout'', JNum 60)] \<rparr>"
      example_env example_options "[CallMultipart ''big.bin'' ''B'' [], Tick]"
      "Thrown ''net''"]
  by (simp add: exec_defs example_env_def example_options_def)




text \<open>
  C6. In every reachable state, when the backend promise of a multipart task in flight
  is rejected while \<^verbatim>\<open>isCancel()\<close> answers true, the promise of that call is rejected
  with the error and nothing else happens: no resubmission is recorded, no call is
  created, the backend is not called again and no retry counter is created or
  changed, whatever the counter and \<^verbatim>\<open>retryCount\<close> are.
\<close>

theorem cancellation_is_terminal:
  assumes "t \<in> set (inflight (run e (initial ops) acts))" and "t_kind t = MultipartOp"
  shows "(let s = run e (initial ops) acts;
            s' = backend_settled e (t_owner t) (Failure err True) s in
          promises s' (t_owner t) = Some (Rejected err)
        \<and> resubmits s' = resubmits s \<and> retryQueue s' = retryQueue s
        \<and> backend_calls s' = backend_calls s \<and> event s' = event s
        \<and> next_pid s' = next_pid s
        \<and> inflight s' = filter (\<lambda>u. t_owner u \<noteq> t_owner t) (inflight s))"
proof -
  let ?s = "run e (initial ops) acts"
  note f = inflight_facts [OF reachable(2) assms(1)]
  let ?s1 = "?s\<lparr> inflight := filter (\<lambda>u. t_owner u \<noteq> t_owner t) (inflight ?s),
                  settled := settled ?s @ [(t, Failure err True)] \<rparr>"
  have "backend_settled e (t_owner t) (Failure err True) ?s
      = settle (t_owner t) (Rejected err) ?s1"
    using f(1,2) assms(2)
    by (simp add: backend_settled_def Let_def multipart_failed_cancelled)
  with f(3) show ?thesis by (simp add: Let_def settle_promises)
qed

theorem cancellation_is_terminal_witness:
  "inflight (run example_env (initial example_options)
        [CallMultipart ''big.bin'' ''B'' [], Tick])
     = [\<lparr> t_key = 0, t_kind = MultipartOp, t_owner = 0, t_filename = ''media/big.bin'',
        t_data = ''B'',
        t_config = [(''headers'', JObj [(''Cache-Control'', JStr ''public'')]),
                    (''timeout'', JNum 60)] \<rparr>]
   \<and> promises (backend_settled example_env 0 (Failure (Thrown ''aborted'') True)
        (run example_env (initial example_options)
        [CallMultipart ''big.bin'' ''B'' [], Tick])) 0
     = Some (Rejected (Thrown ''aborted''))
   \<and> resubmits (backend_settled example_env 0 (Failure (Thrown ''aborted'') True)
        (run example_env (initial example_options)
        [CallMultipart ''big.bin'' ''B'' [], Tick])) = []
   \<and> retryQueue (backend_settled example_env 0 (Failure (Thrown ''aborted'') True)
        (run example_env (initial example_options)
        [CallMultipart ''big.bin'' ''B'' [], Tick])) ''media/big.bin'' = None
   \<and> next_pid (backend_settled example_env 0 (Failure (Thrown ''aborted'') True)
        (run example_env (initial example_options)
        [CallMultipart ''big.bin'' ''B'' [], Tick])) = 1"
  using cancellation_is_terminal [of
      "\<lparr> t_key = 0, t_kind = MultipartOp, t_owner = 0, t_filename = ''media/big.bin'',
        t_data = ''B'',
        t_config = [(''headers'', JObj [(''Cache-Control'', JStr ''public'')]),
                    (''timeout'', JNum 60)] \<rparr>"
      example_env example_options "[CallMultipart ''big.bin'' ''B'' [], Tick]"
      "Thrown ''aborted''"]
  by (simp add: exec_defs example_env_def example_options_def)

text \<open>
  C7, as the spec states it, fails: when \<^verbatim>\<open>new OSS\<close> throws, no caller is rejected.
  With a constructor that throws, after two calls and the turns of the scheduler both
  promises are still pending, both tasks are still queued and nothing was drained.
\<close>

theorem construction_failure_not_propagated:
  "construct failing_env (oss_options.truncate example_options)
      = Inl (Thrown ''bad endpoint'')
   \<and> constructed (run failing_env (initial example_options)
        [CallPut ''a.jpg'' ''A'' [], Tick, CallMultipart ''b.bin'' ''B'' [], Tick])
      = [oss_options.truncate example_options]
   \<and> promises (run failing_env (initial example_options)
        [CallPut ''a.jpg'' ''A'' [], Tick, CallMultipart ''b.bin'' ''B'' [], Tick]) 0
      \<noteq> Some (Rejected (Thrown ''bad endpoint''))
   \<and> promises (run failing_env (initial example_options)
        [CallPut ''a.jpg'' ''A'' [], Tick, CallMultipart ''b.bin'' ''B'' [], Tick]) 1
      \<noteq> Some (Rejected (Thrown ''bad endpoint''))
   \<and> map t_owner (event (run failing_env (initial example_options)
        [CallPut ''a.jpg'' ''A'' [], Tick, CallMultipart ''b.bin'' ''B'' [], Tick]))
      = [0, 1]"
  by (simp add: exec_defs failing_env_def example_options_def example_env_def)

text \<open>
  C7, amended. When the construction was attempted and left no client (the
  constructor threw), the failure is not propagated to any queued task, and as long
  as the instance is used only through \<^verbatim>\<open>put\<close> and \<^verbatim>\<open>multipartUpload\<close> (every later
  step is a call of one of the two or the continuation of one) it stays without a
  client: no second construction is attempted and \<^verbatim>\<open>getOptions\<close> is not invoked again,
  no listener is entered, nothing is drained and the backend is never called, every
  call made so far is still queued, and no promise of any pending or later caller is
  ever settled (neither resolved nor rejected).
\<close>

theorem failed_construction_strands_callers:
  assumes "client (run e (initial ops) acts) = None"
    and "constructed (run e (initial ops) acts) \<noteq> []"
  shows "(let s' = run e (initial ops) (acts @ later) in
          client s' = None \<and> constructed s' = constructed (run e (initial ops) acts)
        \<and> options_calls s' = options_calls (run e (initial ops) acts)
        \<and> (\<forall>p. promises s' p = None) \<and> drains s' = [] \<and> executed s' = []
        \<and> backend_calls s' = []
        \<and> map t_owner (event s') = [0..<next_pid s'])"
proof -
  let ?s = "run e (initial ops) acts"
  let ?s' = "run e (initial ops) (acts @ later)"
  from stuck_run [OF reachable(1,2) assms, of e later]
  have c: "client ?s' = None" "constructed ?s' = constructed ?s"
    "options_calls ?s' = options_calls ?s"
    by (simp_all add: run_append)
  from reachable(2) [of e ops "acts @ later"] c(1)
  have b: "\<forall>p. promises ?s' p = None" "drains ?s' = []"
    "started ?s' @ map t_owner (event ?s') = [0..<next_pid ?s']"
    by (simp_all add: bookkeeping_def)
  from b(2) have st: "started ?s' = []" by (simp add: started_def)
  from reachable(3) [of e ops "acts @ later"] st
  have ex: "executed ?s' = []" and "subseq (map fst (backend_calls ?s')) []"
    by (auto simp add: calls_in_order_def)
  then have "map fst (backend_calls ?s') = []" by (intro list_emb_Nil2)
  then have "backend_calls ?s' = []" by simp
  with b c st ex show ?thesis by (simp add: Let_def)
qed

theorem failed_construction_strands_callers_witness:
  "client (run failing_env (initial example_options) [CallPut ''a.jpg'' ''A'' []]) = None
   \<and> constructed (run failing_env (initial example_options) [CallPut ''a.jpg'' ''A'' []])
      \<noteq> []
   \<and> client (run failing_env (initial example_options)
        ([CallPut ''a.jpg'' ''A'' []] @ [Tick, CallMultipart ''b.bin'' ''B'' [], Tick]))
      = None
   \<and> promises (run failing_env (initial example_options)
        ([CallPut ''a.jpg'' ''A'' []] @ [Tick, CallMultipart ''b.bin'' ''B'' [], Tick])) 0
      = None
   \<and> promises (run failing_env (initial example_options)
        ([CallPut ''a.jpg'' ''A'' []] @ [Tick, CallMultipart ''b.bin'' ''B'' [], Tick])) 1
      = None
   \<and> length (constructed (run failing_env (initial example_options)
        ([CallPut ''a.jpg'' ''A'' []] @ [Tick, CallMultipart ''b.bin'' ''B'' [], Tick])))
      = 1
   \<and> map t_owner (event (run failing_env (initial example_options)
        ([CallPut ''a.jpg'' ''A'' []] @ [Tick, CallMultipart ''b.bin'' ''B'' [], Tick])))
      = [0, 1]"
  using failed_construction_strands_callers [of failing_env example_options
      "[CallPut ''a.jpg'' ''A'' []]" "[Tick, CallMultipart ''b.bin'' ''B'' [], Tick]"]
  by (simp add: exec_defs failing_env_def example_options_def example_env_def)

text \<open>
  C8. In every reachable state in which a call waits in \<^verbatim>\<open>getStore\<close> for the promise
  of \<^verbatim>\<open>getOptions\<close>, that call is the only one waiting and nothing was constructed
  yet. When the promise is rejected, the rejection is swallowed: the stored options
  stay as they were, no promise of any caller is settled, and \<^verbatim>\<open>getOptions\<close> is never
  invoked again, whatever happens later. Construction proceeds: \<^verbatim>\<open>new OSS\<close> is invoked
  once, with every stored option but \<^verbatim>\<open>async\<close>, as they stood before the call; when
  it returns a client, that client is cached, the \<^verbatim>\<open>getStore\<close> promise of the waiting
  call resolves and its \<^verbatim>\<open>#init\<close> is scheduled to continue. A fulfilment with a
  falsy value leaves the options unchanged too. When the promise is fulfilled with an
  object, the stored options become the shallow merge of the object over them: each
  key the object has replaces the stored value whole (a \<^verbatim>\<open>config\<close> key replaces the
  stored config, without merging into it), every other key keeps its stored value;
  and \<^verbatim>\<open>new OSS\<close> is invoked once with the merged options, with the same consequences.
\<close>

theorem options_failure_swallowed:
  assumes "waiting_options (run e (initial ops) acts) = who # rest"
  shows "(let s = run e (initial ops) acts;
              arg = \<lparr> rootPath = rootPath (opts s), rename = rename (opts s),
                      enableCdn = enableCdn (opts s), cdnUrl = cdnUrl (opts s),
                      retryCount = retryCount (opts s), config = config (opts s),
                      other = other (opts s) \<rparr>;
              s' = options_settled e (Failed err) s in
            rest = [] \<and> constructed s = [] \<and> client s = None
          \<and> opts s' = opts s \<and> (\<forall>q. promises s' q = None)
          \<and> waiting_options s' = [] \<and> options_calls s' = options_calls s
          \<and> constructed s' = [arg]
          \<and> (case construct e arg of
                Inr c \<Rightarrow> client s' = Some c \<and> store_resolved s' = [who]
                         \<and> init_resume s' = [who]
              | Inl x \<Rightarrow> client s' = None \<and> store_resolved s' = [] \<and> init_resume s' = [])
          \<and> (\<forall>later. options_calls (run e s' later) = options_calls s
                     \<and> constructed (run e s' later) = [arg])
          \<and> opts (options_settled e (Fulfilled None) s) = opts s
          \<and> constructed (options_settled e (Fulfilled None) s) = [arg])
       \<and> (let s = run e (initial ops) acts;
              merged = \<lparr> rootPath = (case p_rootPath p of None \<Rightarrow> rootPath (opts s) | Some v \<Rightarrow> v),
                         rename = (case p_rename p of None \<Rightarrow> rename (opts s) | Some v \<Rightarrow> v),
                         enableCdn = (case p_enableCdn p of None \<Rightarrow> enableCdn (opts s) | Some v \<Rightarrow> v),
                         cdnUrl = (case p_cdnUrl p of None \<Rightarrow> cdnUrl (opts s) | Some v \<Rightarrow> v),
                         retryCount = (case p_retryCount p of None \<Rightarrow> retryCount (opts s) | Some v \<Rightarrow> v),
                         config = (case p_config p of None \<Rightarrow> config (opts s) | Some v \<Rightarrow> Some v),
                         other = spread (other (opts s)) (p_other p),
                         async = (case p_async p of None \<Rightarrow> async (opts s) | Some v \<Rightarrow> v) \<rparr>;
              arg = \<lparr> rootPath = rootPath merged, rename = rename merged,
                      enableCdn = enableCdn merged, cdnUrl = cdnUrl merged,
                      retryCount = retryCount merged, config = config merged,
                      other = other merged \<rparr>;
              s' = options_settled e (Fulfilled (Some p)) s in
            opts s' = merged
          \<and> (\<forall>k. map_of (other (opts s')) k
                  = (case map_of (p_other p) k of
                       None \<Rightarrow> map_of (other (opts s)) k
                     | Some v \<Rightarrow> Some v))
          \<and> (\<forall>q. promises s' q = None) \<and> options_calls s' = options_calls s
          \<and> constructed s' = [arg]
          \<and> (case construct e arg of
                Inr c \<Rightarrow> client s' = Some c \<and> store_resolved s' = [who]
                         \<and> init_resume s' = [who]
              | Inl x \<Rightarrow> client s' = None \<and> store_resolved s' = [] \<and> init_resume s' = []))"
proof -
  let ?s = "run e (initial ops) acts"
  from reachable(1) [of e ops acts] assms
  have sf: "rest = []" "constructed ?s = []" "client ?s = None" "init_resume ?s = []"
    by (auto simp add: single_flight_def)
  from reachable(2) [of e ops acts] sf(3)
  have bk: "\<forall>q. promises ?s q = None" "store_resolved ?s = []"
    by (simp_all add: bookkeeping_def)
  have later: "options_calls (run e (options_settled e r ?s) later) = options_calls ?s
      \<and> constructed (run e (options_settled e r ?s) later)
          = constructed (options_settled e r ?s)" for r later
  proof -
    have eq: "options_settled e r ?s = run e (initial ops) (acts @ [OptionsSettle r])"
      by (simp add: run_def)
    have ne: "constructed (options_settled e r ?s) \<noteq> []"
      using assms by (simp add: options_settled_def)
    have oc: "options_calls (options_settled e r ?s) = options_calls ?s"
      using assms by (simp add: options_settled_def)
    from attempted_once [of "options_settled e r ?s" e later] ne oc
    show ?thesis unfolding eq using reachable(1,2) [of e ops "acts @ [OptionsSettle r]"]
      by simp
  qed
  have 1: "constructed (options_settled e (Failed err) ?s)
      = [\<lparr> rootPath = rootPath (opts ?s), rename = rename (opts ?s),
            enableCdn = enableCdn (opts ?s), cdnUrl = cdnUrl (opts ?s),
            retryCount = retryCount (opts ?s), config = config (opts ?s),
            other = other (opts ?s) \<rparr>]"
    using assms sf by (simp add: options_settled_def oss_options.truncate_def)
  show ?thesis
    using assms sf bk later [of "Failed err"] 1
    by (simp add: Let_def)
       (simp add: options_settled_def construct_client_def Let_def merge_options_def
          override_def oss_options.truncate_def map_of_spread split: sum.splits)
qed

theorem options_failure_swallowed_witness:
  "waiting_options (run example_env (initial async_options) [CallPut ''a.jpg'' ''A'' []]) = [0]
   \<and> opts (options_settled example_env (Failed (Thrown ''sts down''))
        (run example_env (initial async_options) [CallPut ''a.jpg'' ''A'' []]))
     = async_options
   \<and> constructed (options_settled example_env (Failed (Thrown ''sts down''))
        (run example_env (initial async_options) [CallPut ''a.jpg'' ''A'' []]))
     = [\<lparr> rootPath = ''media'', rename = False, enableCdn = False, cdnUrl = [],
          retryCount = 2,
          config = Some [(''headers'', JObj [(''Cache-Control'', JStr ''public'')]),
                         (''timeout'', JNum 60)],
          other = [] \<rparr>]
   \<and> client (options_settled example_env (Failed (Thrown ''sts down''))
        (run example_env (initial async_options) [CallPut ''a.jpg'' ''A'' []])) = Some 1
   \<and> store_resolved (options_settled example_env (Failed (Thrown ''sts down''))
        (run example_env (initial async_options) [CallPut ''a.jpg'' ''A'' []])) = [0]
   \<and> init_resume (options_settled example_env (Failed (Thrown ''sts down''))
        (run example_env (initial async_options) [CallPut ''a.jpg'' ''A'' []])) = [0]
   \<and> promises (options_settled example_env (Failed (Thrown ''sts down''))
        (run example_env (initial async_options) [CallPut ''a.jpg'' ''A'' []])) 0
     = None
   \<and> options_calls (run example_env
        (options_settled example_env (Failed (Thrown ''sts down''))
          (run example_env (initial async_options) [CallPut ''a.jpg'' ''A'' []]))
        [Tick, CallPut ''b.jpg'' ''B'' []]) = 1
   \<and> opts (options_settled example_env (Fulfilled (Some example_patch))
        (run example_env (initial async_options) [CallPut ''a.jpg'' ''A'' []]))
     = \<lparr> rootPath = ''media'', rename = False, enableCdn = False, cdnUrl = [],
         retryCount = 1, config = Some [(''timeout'', JNum 5)],
         other = [(''stsToken'', JStr ''t1'')], async = True \<rparr>
   \<and> constructed (options_settled example_env (Fulfilled (Some example_patch))
        (run example_env (initial async_options) [CallPut ''a.jpg'' ''A'' []]))
     = [\<lparr> rootPath = ''media'', rename = False, enableCdn = False, cdnUrl = [],
          retryCount = 1, config = Some [(''timeout'', JNum 5)],
          other = [(''stsToken'', JStr ''t1'')] \<rparr>]
   \<and> client (options_settled example_env (Fulfilled (Some example_patch))
        (run example_env (initial async_options) [CallPut ''a.jpg'' ''A'' []])) = Some 1"
  using options_failure_swallowed [of example_env async_options
      "[CallPut ''a.jpg'' ''A'' []]" 0 "[]"
      "Thrown ''sts down''" example_patch]
  by (simp add: exec_defs example_env_def async_options_def example_patch_def example_options_def)




text \<open>
  C10, as stated, fails in its last clause: the task of a deferred call is not always
  executed by the drain of the leading call. Call 0 leads and waits for
  \<^verbatim>\<open>getOptions\<close>; call 1 arrives without a client and behind another task, so it
  defers. The options arrive and the continuation of \<^verbatim>\<open>getStore\<close> constructs the
  client and resolves; the continuation of the leading \<^verbatim>\<open>#init\<close> is a later
  microtask. Call 2 is made in between (by a caller that, when it resolves the
  options promise, queues a microtask which queues the call in a second one): it
  finds the client and drains tasks 0, 1 and 2 itself. The leading call then drains
  an empty queue.
\<close>

theorem deferred_task_drained_by_later_call:
  "client (run example_env (initial async_options) [CallPut ''a.jpg'' ''A'' []]) = None
   \<and> map t_owner (event (run example_env (initial async_options)
        [CallPut ''a.jpg'' ''A'' []])) = [0]
   \<and> store_resolved (run example_env (initial async_options)
        [CallPut ''a.jpg'' ''A'' [], CallPut ''b.jpg'' ''B'' [],
         OptionsSettle (Fulfilled None), CallPut ''c.jpg'' ''C'' [], Tick]) = [0]
   \<and> drains (run example_env (initial async_options)
        [CallPut ''a.jpg'' ''A'' [], CallPut ''b.jpg'' ''B'' [],
         OptionsSettle (Fulfilled None), CallPut ''c.jpg'' ''C'' [], Tick]) = [(2, [0, 1, 2]), (0, [])]"
  by (simp add: exec_defs example_env_def async_options_def example_options_def)

text \<open>
  C10, amended. A \<^verbatim>\<open>put\<close> or \<^verbatim>\<open>multipartUpload\<close> (\<open>invoke\<close> with either kind) that
  arrives in a reachable state without a client and with a task already queued only
  registers its task. Whatever happens later, its \<^verbatim>\<open>getStore\<close> promise never
  settles (it is never resolved, and \<^verbatim>\<open>getStore\<close> has no way to reject it), no
  continuation of its \<^verbatim>\<open>#init\<close> is ever scheduled and its \<^verbatim>\<open>#init\<close> never emits.
  Its task is executed only by another call's drain, and only at one moment: the step
  that executes it starts with the task still queued, the client constructed, and the
  leading call (the one call whose \<^verbatim>\<open>getStore\<close> promise resolved) still waiting for
  its \<^verbatim>\<open>#init\<close> to continue; that step is either this continuation, and then the
  leading call drains the queue, or a \<^verbatim>\<open>put\<close>/\<^verbatim>\<open>multipartUpload\<close> call made at that
  moment, and then that call drains the queue, its own task last. Either way it is
  the first drain of the instance.
\<close>

theorem deferred_call_never_settles:
  assumes "client (run e (initial ops) acts) = None"
    and "event (run e (initial ops) acts) \<noteq> []"
  shows "(let s = run e (initial ops) acts; p = next_pid s;
            s' = run e (invoke e k f d cfg s) later in
          invoke e k f d cfg s =
            on \<lparr> t_key = uid s, t_kind = k, t_owner = p, t_filename = f,
                 t_data = d, t_config = cfg \<rparr>
               (s\<lparr>next_pid := Suc p, uid := Suc (uid s)\<rparr>)
        \<and> p \<notin> set (store_resolved s') \<and> p \<notin> set (init_resume s')
        \<and> p \<notin> fst ` set (drains s'))
       \<and> (let s = run e (initial ops) acts; p = next_pid s;
              m = run e (invoke e k f d cfg s) pre; m' = step e m a in
            p \<notin> set (executed m) \<and> p \<in> set (executed m') \<longrightarrow>
              p \<in> t_owner ` set (event m) \<and> client m \<noteq> None \<and> drains m = []
            \<and> (\<exists>l. l \<noteq> p \<and> store_resolved m = [l] \<and> init_resume m = [l]
                  \<and> (a = Tick \<and> drains m' = [(l, map t_owner (event m))]
                     \<or> (\<exists>f' d' c'. a = CallPut f' d' c' \<or> a = CallMultipart f' d' c')
                       \<and> drains m' = [(next_pid m, map t_owner (event m) @ [next_pid m])])))"
proof -
  let ?s = "run e (initial ops) acts"
  let ?p = "next_pid ?s"
  let ?s1 = "invoke e k f d cfg ?s"
  let ?s' = "run e ?s1 later"
  have eq: "?s1 = on \<lparr> t_key = uid ?s, t_kind = k, t_owner = ?p, t_filename = f,
                 t_data = d, t_config = cfg \<rparr>
               (?s\<lparr>next_pid := Suc ?p, uid := Suc (uid ?s)\<rparr>)"
    by (rule invoke_defers [OF assms])
  from reachable(2) [of e ops acts]
  have "\<forall>q\<in>set (waiting_options ?s) \<union> set (init_resume ?s) \<union> set (store_resolved ?s)
          \<union> fst ` set (drains ?s). q < ?p"
    by (simp add: bookkeeping_def)
  then have d1: "deferred ?p ?s1"
    unfolding eq by (auto simp add: deferred_def on_def)
  then have d: "deferred ?p ?s'" by (rule deferred_run)
  then have 1: "?p \<notin> set (store_resolved ?s')" "?p \<notin> set (init_resume ?s')"
    "?p \<notin> fst ` set (drains ?s')"
    by (simp_all add: deferred_def)
  let ?m = "run e ?s1 pre"
  let ?m' = "step e ?m a"
  have 2: "?p \<in> t_owner ` set (event ?m) \<and> client ?m \<noteq> None \<and> drains ?m = []
       \<and> (\<exists>l. l \<noteq> ?p \<and> store_resolved ?m = [l] \<and> init_resume ?m = [l]
             \<and> (a = Tick \<and> drains ?m' = [(l, map t_owner (event ?m))]
                \<or> (\<exists>f' d' c'. a = CallPut f' d' c' \<or> a = CallMultipart f' d' c')
                  \<and> drains ?m' = [(next_pid ?m, map t_owner (event ?m) @ [next_pid ?m])]))"
    if no: "?p \<notin> set (executed ?m)" and yes: "?p \<in> set (executed ?m')"
  proof -
    have meq: "?m = run e (initial ops) (acts @ (case k of PutOp \<Rightarrow> CallPut f d cfg
        | MultipartOp \<Rightarrow> CallMultipart f d cfg) # pre)"
      by (cases k) (simp_all add: run_def put_def multipartUpload_def)
    have sf: "single_flight ?m" and bk: "bookkeeping ?m" and co: "calls_in_order ?m"
      and dp: "drain_phase ?m"
      unfolding meq by (rule reachable)+
    from deferred_run [OF d1, of e pre]
    have dm: "?p < next_pid ?m" "?p \<notin> set (init_resume ?m)" "?p \<notin> set (store_resolved ?m)"
      by (simp_all add: deferred_def)
    from co have ex: "executed ?m = started ?m" by (auto simp add: calls_in_order_def)
    from bk have fifo: "started ?m @ map t_owner (event ?m) = [0..<next_pid ?m]"
      by (simp add: bookkeeping_def)
    have "?p \<in> set (started ?m @ map t_owner (event ?m))"
      unfolding fifo using dm(1) by simp
    with no ex have queued: "?p \<in> t_owner ` set (event ?m)" by auto
    then have "event ?m \<noteq> []" by auto
    with dp have dr: "drains ?m = []" by (auto simp add: drain_phase_def)
    then have "started ?m = []" by (simp add: started_def)
    with bk have fl: "inflight ?m = []" by (simp add: bookkeeping_def)
    have leader: "\<exists>l. l \<noteq> ?p \<and> store_resolved ?m = [l] \<and> init_resume ?m = [l]"
      if "client ?m \<noteq> None"
    proof -
      from dp dr that obtain l where "init_resume ?m = [l]" "store_resolved ?m = [l]"
        by (auto simp add: drain_phase_def)
      with dm(2) show ?thesis by auto
    qed
    have changed: "executed ?m' \<noteq> executed ?m" using no yes by auto
    show ?thesis
    proof (cases a)
      case (OptionsSettle r)
      then have "executed ?m' = executed ?m"
        by (simp add: options_settled_def construct_client_def Let_def
              split: list.splits sum.splits)
      with changed show ?thesis by simp
    next
      case (BackendSettle q r)
      with fl have "?m' = ?m" by (simp add: backend_settled_def)
      with changed show ?thesis by simp
    next
      case Tick
      show ?thesis
      proof (cases "init_resume ?m")
        case Nil
        with Tick have "?m' = ?m" by (simp add: tick_def)
        with changed show ?thesis by simp
      next
        case (Cons who rest)
        with sf have c: "client ?m \<noteq> None" by (auto simp add: single_flight_def)
        from leader [OF c] obtain l where
          l: "l \<noteq> ?p" "store_resolved ?m = [l]" "init_resume ?m = [l]" by blast
        with Cons have "who = l" "rest = []" by simp_all
        with Tick Cons dr have "drains ?m' = [(l, map t_owner (event ?m))]"
          by (simp add: tick_def)
        with Tick queued c dr l show ?thesis by blast
      qed
    next
      case (CallPut f' d' c')
      show ?thesis
      proof (cases "client ?m")
        case None
        with CallPut have "executed ?m' = executed ?m"
          by (simp add: put_def invoke_no_client)
        with changed show ?thesis by simp
      next
        case (Some cl)
        then have c: "client ?m \<noteq> None" by simp
        from leader [OF c] obtain l where
          l: "l \<noteq> ?p" "store_resolved ?m = [l]" "init_resume ?m = [l]" by blast
        from CallPut Some dr
        have "drains ?m' = [(next_pid ?m, map t_owner (event ?m) @ [next_pid ?m])]"
          by (simp add: put_def invoke_with_client on_def)
        with CallPut queued c dr l show ?thesis by blast
      qed
    next
      case (CallMultipart f' d' c')
      show ?thesis
      proof (cases "client ?m")
        case None
        with CallMultipart have "executed ?m' = executed ?m"
          by (simp add: multipartUpload_def invoke_no_client)
        with changed show ?thesis by simp
      next
        case (Some cl)
        then have c: "client ?m \<noteq> None" by simp
        from leader [OF c] obtain l where
          l: "l \<noteq> ?p" "store_resolved ?m = [l]" "init_resume ?m = [l]" by blast
        from CallMultipart Some dr
        have "drains ?m' = [(next_pid ?m, map t_owner (event ?m) @ [next_pid ?m])]"
          by (simp add: multipartUpload_def invoke_with_client on_def)
        with CallMultipart queued c dr l show ?thesis by blast
      qed
    qed
  qed
  from eq 1 have A: "(let s = run e (initial ops) acts; p = next_pid s;
            s' = run e (invoke e k f d cfg s) later in
          invoke e k f d cfg s =
            on \<lparr> t_key = uid s, t_kind = k, t_owner = p, t_filename = f,
                 t_data = d, t_config = cfg \<rparr>
               (s\<lparr>next_pid := Suc p, uid := Suc (uid s)\<rparr>)
        \<and> p \<notin> set (store_resolved s') \<and> p \<notin> set (init_resume s')
        \<and> p \<notin> fst ` set (drains s'))"
    by (simp add: Let_def)
  from 2 have B: "(let s = run e (initial ops) acts; p = next_pid s;
              m = run e (invoke e k f d cfg s) pre; m' = step e m a in
            p \<notin> set (executed m) \<and> p \<in> set (executed m') \<longrightarrow>
              p \<in> t_owner ` set (event m) \<and> client m \<noteq> None \<and> drains m = []
            \<and> (\<exists>l. l \<noteq> p \<and> store_resolved m = [l] \<and> init_resume m = [l]
                  \<and> (a = Tick \<and> drains m' = [(l, map t_owner (event m))]
                     \<or> (\<exists>f' d' c'. a = CallPut f' d' c' \<or> a = CallMultipart f' d' c')
                       \<and> drains m' = [(next_pid m, map t_owner (event m) @ [next_pid m])])))"
    unfolding Let_def by blast
  from A B show ?thesis by blast
qed

theorem deferred_call_never_settles_witness:
  "client (run example_env (initial async_options) [CallPut ''a.jpg'' ''A'' []]) = None
   \<and> event (run example_env (initial async_options) [CallPut ''a.jpg'' ''A'' []]) \<noteq> []
   \<and> store_resolved (run example_env
        (invoke example_env MultipartOp ''b.bin'' ''B'' []
           (run example_env (initial async_options) [CallPut ''a.jpg'' ''A'' []]))
        [OptionsSettle (Fulfilled None), Tick]) = [0]
   \<and> drains (run example_env
        (invoke example_env MultipartOp ''b.bin'' ''B'' []
           (run example_env (initial async_options) [CallPut ''a.jpg'' ''A'' []]))
        [OptionsSettle (Fulfilled None), Tick]) = [(0, [0, 1])]
   \<and> executed (run example_env
        (invoke example_env MultipartOp ''b.bin'' ''B'' []
           (run example_env (initial async_options) [CallPut ''a.jpg'' ''A'' []]))
        [OptionsSettle (Fulfilled None)]) = []
   \<and> executed (step example_env (run example_env
        (invoke example_env MultipartOp ''b.bin'' ''B'' []
           (run example_env (initial async_options) [CallPut ''a.jpg'' ''A'' []]))
        [OptionsSettle (Fulfilled None)]) (CallPut ''c.jpg'' ''C'' [])) = [0, 1, 2]
   \<and> store_resolved (run example_env
        (invoke example_env MultipartOp ''b.bin'' ''B'' []
           (run example_env (initial async_options) [CallPut ''a.jpg'' ''A'' []]))
        [OptionsSettle (Fulfilled None)]) = [0]
   \<and> drains (step example_env (run example_env
        (invoke example_env MultipartOp ''b.bin'' ''B'' []
           (run example_env (initial async_options) [CallPut ''a.jpg'' ''A'' []]))
        [OptionsSettle (Fulfilled None)]) (CallPut ''c.jpg'' ''C'' [])) = [(2, [0, 1, 2])]"
  using deferred_call_never_settles [of example_env async_options
      "[CallPut ''a.jpg'' ''A'' []]" MultipartOp "''b.bin''" "''B''" "[]"
      "[OptionsSettle (Fulfilled None), Tick]"
      "[OptionsSettle (Fulfilled None)]" "CallPut ''c.jpg'' ''C'' []"]
  by (simp add: exec_defs example_env_def async_options_def example_options_def)

end
